theory Spec2Isabelle
  imports Main "HOL-Library.AList"
begin

section \<open>Rate limiter (src/lib/rateLimiter.ts)\<close>

text \<open>
  Times are milliseconds as returned by \<^verbatim>\<open>Date.now()\<close>, modelled as \<open>int\<close>; the
  counters only ever start at 0, are incremented or are reset to 0, so they are \<open>nat\<close>.
  The optional field \<^verbatim>\<open>blockUntil?: number\<close> is an \<open>int option\<close>
  (\<open>None\<close> after \<^verbatim>\<open>delete entry.blockUntil\<close>). The methods are synchronous; the clock
  reads of one call (in \<^verbatim>\<open>checkLimit\<close> and in its two calls of \<^verbatim>\<open>getOrCreateEntry\<close>) are
  taken to return the same value \<open>now\<close>, which is a parameter. So is
  \<^verbatim>\<open>process.env.NODE_ENV === "development"\<close>.
\<close>

record RateLimitEntry =
  count :: nat
  resetTime :: int
  blocked :: bool
  blockUntil :: "int option"
  burstCount :: nat
  lastBurstReset :: int

datatype endpoint =
    EpArtistDetail | EpArtistSearch | EpArtistImage | EpSpotifyTracks | EpSpotifyAlbums
  | EpSpotifyRelated | EpTrendingArtists | EpYoutubeVideos | EpArtistNews

fun endpoint_key :: "endpoint \<Rightarrow> string" where
  "endpoint_key EpArtistDetail = ''artist-detail''"
| "endpoint_key EpArtistSearch = ''artist-search''"
| "endpoint_key EpArtistImage = ''artist-image''"
| "endpoint_key EpSpotifyTracks = ''spotify-tracks''"
| "endpoint_key EpSpotifyAlbums = ''spotify-albums''"
| "endpoint_key EpSpotifyRelated = ''spotify-related''"
| "endpoint_key EpTrendingArtists = ''trending-artists''"
| "endpoint_key EpYoutubeVideos = ''youtube-videos''"
| "endpoint_key EpArtistNews = ''artist-news''"

record Limit =
  limit_max :: nat
  limit_window :: int

text \<open>The object-valued members of \<^verbatim>\<open>LIMITS\<close>, in the order of the source.\<close>

definition LIMITS :: "(string \<times> Limit) list" where
  "LIMITS =
    [(''artist-detail'', \<lparr>limit_max = 500, limit_window = 60000\<rparr>),
     (''artist-search'', \<lparr>limit_max = 500, limit_window = 60000\<rparr>),
     (''artist-image'', \<lparr>limit_max = 1000, limit_window = 60000\<rparr>),
     (''spotify-tracks'', \<lparr>limit_max = 100, limit_window = 300000\<rparr>),
     (''spotify-albums'', \<lparr>limit_max = 50, limit_window = 300000\<rparr>),
     (''spotify-related'', \<lparr>limit_max = 100, limit_window = 300000\<rparr>),
     (''trending-artists'', \<lparr>limit_max = 100, limit_window = 600000\<rparr>),
     (''youtube-videos'', \<lparr>limit_max = 50, limit_window = 3600000\<rparr>),
     (''artist-news'', \<lparr>limit_max = 200, limit_window = 3600000\<rparr>),
     (''global'', \<lparr>limit_max = 2000, limit_window = 60000\<rparr>)]"

text \<open>The number-valued members of \<^verbatim>\<open>LIMITS\<close>.\<close>

definition blockDuration :: int where "blockDuration = 30000"
definition burstWindow :: int where "burstWindow = 60000"
definition burstMax :: nat where "burstMax = 300"

text \<open>
  \<^verbatim>\<open>this.LIMITS[endpoint]\<close> for a key of the endpoint type and \<^verbatim>\<open>this.LIMITS.global\<close>.
\<close>

fun endpointLimit :: "endpoint \<Rightarrow> Limit" where
  "endpointLimit EpArtistDetail = \<lparr>limit_max = 500, limit_window = 60000\<rparr>"
| "endpointLimit EpArtistSearch = \<lparr>limit_max = 500, limit_window = 60000\<rparr>"
| "endpointLimit EpArtistImage = \<lparr>limit_max = 1000, limit_window = 60000\<rparr>"
| "endpointLimit EpSpotifyTracks = \<lparr>limit_max = 100, limit_window = 300000\<rparr>"
| "endpointLimit EpSpotifyAlbums = \<lparr>limit_max = 50, limit_window = 300000\<rparr>"
| "endpointLimit EpSpotifyRelated = \<lparr>limit_max = 100, limit_window = 300000\<rparr>"
| "endpointLimit EpTrendingArtists = \<lparr>limit_max = 100, limit_window = 600000\<rparr>"
| "endpointLimit EpYoutubeVideos = \<lparr>limit_max = 50, limit_window = 3600000\<rparr>"
| "endpointLimit EpArtistNews = \<lparr>limit_max = 200, limit_window = 3600000\<rparr>"

definition globalLimit :: Limit where
  "globalLimit = \<lparr>limit_max = 2000, limit_window = 60000\<rparr>"

text \<open>
  The local helper \<^verbatim>\<open>getWindow\<close> of \<^verbatim>\<open>getOrCreateEntry\<close>: the window of an
  object-valued member of \<^verbatim>\<open>LIMITS\<close>, 60000 for every other key.
\<close>

definition getWindow :: "string \<Rightarrow> int" where
  "getWindow key = (case map_of LIMITS key of Some l \<Rightarrow> limit_window l | None \<Rightarrow> 60000)"

type_synonym limits = "string \<rightharpoonup> RateLimitEntry"

text \<open>
  \<^verbatim>\<open>getOrCreateEntry(key)\<close> at time \<open>now\<close>. The entry object is shared with the table,
  so the model returns the entry together with the table that holds it.
  \<^verbatim>\<open>entry.blocked && entry.blockUntil\<close> tests the truthiness of a number: defined and not 0.
\<close>

definition getOrCreateEntry :: "int \<Rightarrow> string \<Rightarrow> limits \<Rightarrow> RateLimitEntry \<times> limits" where
  "getOrCreateEntry now key lims =
    (let entry0 = (case lims key of
                     None \<Rightarrow> \<lparr>count = 0, resetTime = now + getWindow key, blocked = False,
                              blockUntil = None, burstCount = 0, lastBurstReset = now\<rparr>
                   | Some e \<Rightarrow> e);
         entry1 = (if now > resetTime entry0
                   then entry0\<lparr>count := 0, resetTime := now + getWindow key,
                               blocked := False, blockUntil := None\<rparr>
                   else entry0);
         entry2 = (if now > lastBurstReset entry1 + burstWindow
                   then entry1\<lparr>burstCount := 0, lastBurstReset := now\<rparr>
                   else entry1);
         entry3 = (case blockUntil entry2 of
                     None \<Rightarrow> entry2
                   | Some b \<Rightarrow>
                       if blocked entry2 \<and> b \<noteq> 0 \<and> now < b then entry2
                       else if blocked entry2 \<and> b \<noteq> 0 \<and> now \<ge> b
                       then entry2\<lparr>blocked := False, count := 0, burstCount := 0,
                                   blockUntil := None\<rparr>
                       else entry2)
     in (entry3, lims(key \<mapsto> entry3)))"

text \<open>
  \<^verbatim>\<open>Math.ceil(x / 1000)\<close> on an integer number of milliseconds.
\<close>

definition ceilSeconds :: "int \<Rightarrow> int" where
  "ceilSeconds x = - ((- x) div 1000)"

text \<open>
  The result object. \<open>resetIn\<close> is \<open>None\<close> where the source computes \<^verbatim>\<open>NaN\<close>
  (\<^verbatim>\<open>blockUntil! - now\<close> on an entry without \<^verbatim>\<open>blockUntil\<close>). The message templates
  are kept as constructors with the values they interpolate.
\<close>

datatype message =
    EndpointBlocked endpoint "int option"
  | GlobalBlocked "int option"
  | RateLimitExceeded int
  | SlowDown int
  | CacheHitAvoided

record RateLimitResult =
  allowed :: bool
  remaining :: int
  resetIn :: "int option"
  message :: "message option"

definition checkLimit :: "bool \<Rightarrow> int \<Rightarrow> endpoint \<Rightarrow> limits \<Rightarrow> RateLimitResult \<times> limits" where
  "checkLimit isDevelopment now endpoint lims =
    (let (endpointEntry, lims1) = getOrCreateEntry now (endpoint_key endpoint) lims;
         (globalEntry, lims2) = getOrCreateEntry now ''global'' lims1
     in
       if blocked endpointEntry then
         (let r = map_option (\<lambda>b. ceilSeconds (b - now)) (blockUntil endpointEntry)
          in (\<lparr>allowed = False, remaining = 0, resetIn = r,
               message = Some (EndpointBlocked endpoint r)\<rparr>, lims2))
       else if blocked globalEntry then
         (let r = map_option (\<lambda>b. ceilSeconds (b - now)) (blockUntil globalEntry)
          in (\<lparr>allowed = False, remaining = 0, resetIn = r,
               message = Some (GlobalBlocked r)\<rparr>, lims2))
       else
         (let wouldExceedEndpoint = (count endpointEntry \<ge> limit_max (endpointLimit endpoint));
              wouldExceedGlobal = (count globalEntry \<ge> limit_max globalLimit)
          in
            if wouldExceedEndpoint \<or> wouldExceedGlobal then
              (let lims3 = (if wouldExceedEndpoint
                            then lims2(endpoint_key endpoint \<mapsto>
                                   endpointEntry\<lparr>blocked := True,
                                     blockUntil := Some (now + blockDuration)\<rparr>)
                            else lims2);
                   lims4 = (if wouldExceedGlobal
                            then lims3(''global'' \<mapsto>
                                   globalEntry\<lparr>blocked := True,
                                     blockUntil := Some (now + blockDuration)\<rparr>)
                            else lims3);
                   r = ceilSeconds blockDuration
               in (\<lparr>allowed = False, remaining = 0, resetIn = Some r,
                    message = Some (RateLimitExceeded r)\<rparr>, lims4))
            else
              (let burstResetIn = ceilSeconds (lastBurstReset globalEntry + burstWindow - now)
               in
                 if \<not> isDevelopment \<and> burstCount globalEntry \<ge> burstMax \<and> burstResetIn \<le> 3
                 then (\<lparr>allowed = False, remaining = 0, resetIn = Some burstResetIn,
                        message = Some (SlowDown burstResetIn)\<rparr>, lims2)
                 else
                   (let endpointEntry' = endpointEntry\<lparr>count := count endpointEntry + 1\<rparr>;
                        globalEntry' = globalEntry\<lparr>count := count globalEntry + 1,
                          burstCount := (if isDevelopment then burstCount globalEntry
                                         else burstCount globalEntry + 1)\<rparr>
                    in (\<lparr>allowed = True,
                         remaining = min (int (limit_max (endpointLimit endpoint)) - int (count endpointEntry'))
                                         (int (limit_max globalLimit) - int (count globalEntry')),
                         resetIn = Some (ceilSeconds (min (resetTime endpointEntry' - now)
                                                          (resetTime globalEntry' - now))),
                         message = None\<rparr>,
                        lims2(endpoint_key endpoint \<mapsto> endpointEntry', ''global'' \<mapsto> globalEntry'))))))"

definition checkLimitWithoutIncrement :: "int \<Rightarrow> endpoint \<Rightarrow> limits \<Rightarrow> RateLimitResult \<times> limits" where
  "checkLimitWithoutIncrement now endpoint lims =
    (let (endpointEntry, lims1) = getOrCreateEntry now (endpoint_key endpoint) lims;
         (globalEntry, lims2) = getOrCreateEntry now ''global'' lims1
     in
       if blocked endpointEntry \<or> blocked globalEntry then
         (\<lparr>allowed = False, remaining = 0, resetIn = Some (ceilSeconds blockDuration),
           message = Some CacheHitAvoided\<rparr>, lims2)
       else
         (\<lparr>allowed = True,
           remaining = min (int (limit_max (endpointLimit endpoint)) - int (count endpointEntry))
                           (int (limit_max globalLimit) - int (count globalEntry)),
           resetIn = Some (ceilSeconds (resetTime endpointEntry - now)),
           message = None\<rparr>, lims2))"

text \<open>
  A sequence of \<^verbatim>\<open>checkLimit\<close> calls, each with its time and endpoint, on the shared
  table: the results in call order and the final table.
\<close>

fun checkLimitSeq ::
  "bool \<Rightarrow> (int \<times> endpoint) list \<Rightarrow> limits \<Rightarrow> RateLimitResult list \<times> limits" where
  "checkLimitSeq isDevelopment [] lims = ([], lims)"
| "checkLimitSeq isDevelopment ((now, endpoint) # calls) lims =
     (let (r, lims') = checkLimit isDevelopment now endpoint lims;
          (rs, lims'') = checkLimitSeq isDevelopment calls lims'
      in (r # rs, lims''))"

text \<open>
  The entries \<^verbatim>\<open>checkLimit\<close> and \<^verbatim>\<open>checkLimitWithoutIncrement\<close> work on: the values
  of their local variables \<^verbatim>\<open>endpointEntry\<close> and \<^verbatim>\<open>globalEntry\<close> after the two calls to
  \<^verbatim>\<open>getOrCreateEntry\<close>.
\<close>

definition endpointEntryOf :: "int \<Rightarrow> endpoint \<Rightarrow> limits \<Rightarrow> RateLimitEntry" where
  "endpointEntryOf now endpoint lims = fst (getOrCreateEntry now (endpoint_key endpoint) lims)"

definition globalEntryOf :: "int \<Rightarrow> endpoint \<Rightarrow> limits \<Rightarrow> RateLimitEntry" where
  "globalEntryOf now endpoint lims =
     fst (getOrCreateEntry now ''global'' (snd (getOrCreateEntry now (endpoint_key endpoint) lims)))"

text \<open>
  Three tables used as concrete inputs. \<open>quotaUsed\<close> is the table after one accepted
  \<^verbatim>\<open>spotify-albums\<close> call at time 1 and 49 more at time 290000 (production mode): the
  endpoint has used its 50 requests and is not blocked. \<open>quotaBlocked\<close> is the table
  after one more call at time 290000, which is rejected and blocks the endpoint until 320000,
  while its window ends at 300001. \<open>quotaBlockedEarly\<close> is the table after 51
  \<^verbatim>\<open>spotify-albums\<close> calls at time 1: the last one is rejected and blocks the endpoint until
  30001, long before its window ends at 300001.
\<close>

definition quotaUsed :: limits where
  "quotaUsed = Map.empty
     (''spotify-albums'' \<mapsto> \<lparr>count = 50, resetTime = 300001, blocked = False,
         blockUntil = None, burstCount = 0, lastBurstReset = 290000\<rparr>,
      ''global'' \<mapsto> \<lparr>count = 49, resetTime = 350000, blocked = False,
         blockUntil = None, burstCount = 49, lastBurstReset = 290000\<rparr>)"

definition quotaBlocked :: limits where
  "quotaBlocked = Map.empty
     (''spotify-albums'' \<mapsto> \<lparr>count = 50, resetTime = 300001, blocked = True,
         blockUntil = Some 320000, burstCount = 0, lastBurstReset = 290000\<rparr>,
      ''global'' \<mapsto> \<lparr>count = 49, resetTime = 350000, blocked = False,
         blockUntil = None, burstCount = 49, lastBurstReset = 290000\<rparr>)"

definition quotaBlockedEarly :: limits where
  "quotaBlockedEarly = Map.empty
     (''spotify-albums'' \<mapsto> \<lparr>count = 50, resetTime = 300001, blocked = True,
         blockUntil = Some 30001, burstCount = 0, lastBurstReset = 1\<rparr>,
      ''global'' \<mapsto> \<lparr>count = 50, resetTime = 60001, blocked = False,
         blockUntil = None, burstCount = 50, lastBurstReset = 1\<rparr>)"

section \<open>Artist mapping cache (class ArtistMappingCache)\<close>

text \<open>
  A JavaScript \<^verbatim>\<open>Map\<close> iterates in insertion order, and the secondary-key reads return
  the first match of that iteration, so the table is an association list in insertion order:
  \<^verbatim>\<open>get\<close> is \<^const>\<open>map_of\<close>, \<^verbatim>\<open>set\<close> is \<^const>\<open>AList.update\<close> (replace in place, or
  append), \<^verbatim>\<open>delete\<close> is \<^const>\<open>AList.delete\<close>. Optional string fields are
  \<open>string option\<close>. Each synchronous call reads one clock value \<open>now\<close>.
\<close>

record ArtistMapping =
  spotifyId :: "string option"
  spotifyName :: "string option"
  lastFmName :: "string option"
  unifiedId :: string
  lastUpdated :: int

type_synonym mappings = "(string \<times> ArtistMapping) list"

definition TTL :: int where
  "TTL = 24 * 60 * 60 * 1000"

definition getByUnifiedId :: "int \<Rightarrow> string \<Rightarrow> mappings \<Rightarrow> ArtistMapping option \<times> mappings" where
  "getByUnifiedId now uid ms =
     (case map_of ms uid of
        None \<Rightarrow> (None, ms)
      | Some mapping \<Rightarrow>
          if now - lastUpdated mapping > TTL then (None, AList.delete uid ms)
          else (Some mapping, ms))"

definition getBySpotifyId :: "int \<Rightarrow> string \<Rightarrow> mappings \<Rightarrow> ArtistMapping option \<times> mappings" where
  "getBySpotifyId now sid ms =
     (List.find (\<lambda>mapping. spotifyId mapping = Some sid \<and> now - lastUpdated mapping \<le> TTL)
        (map snd ms), ms)"

text \<open>
  \<^verbatim>\<open>toLowerCase\<close> is the method of JavaScript strings, which lowers every cased letter of
  Unicode. It is not code of this program, so \<^verbatim>\<open>getByLastFmName\<close> takes it as its first
  argument, and what is proved of \<^verbatim>\<open>getByLastFmName\<close> holds for every such function.
\<close>

definition getByLastFmName ::
  "(string \<Rightarrow> string) \<Rightarrow> int \<Rightarrow> string \<Rightarrow> mappings \<Rightarrow> ArtistMapping option \<times> mappings" where
  "getByLastFmName toLowerCase now name ms =
     (let searchName = toLowerCase name
      in (List.find (\<lambda>mapping. map_option toLowerCase (lastFmName mapping) = Some searchName \<and>
                                 now - lastUpdated mapping \<le> TTL)
            (map snd ms), ms))"

text \<open>
  What \<^verbatim>\<open>toLowerCase\<close> does to a string of ASCII characters: the letters \<open>A\<close> to \<open>Z\<close>
  are lowered, every other character is kept. It stands for \<^verbatim>\<open>toLowerCase\<close> at the concrete
  names below, which are ASCII.
\<close>

definition asciiLowerCase :: "string \<Rightarrow> string" where
  "asciiLowerCase str =
     map (\<lambda>c. let n = (of_char c :: nat) in if 65 \<le> n \<and> n \<le> 90 then char_of (n + 32) else c) str"

text \<open>The argument object of \<^verbatim>\<open>setMapping\<close>.\<close>

record MappingData =
  data_unifiedId :: string
  data_spotifyId :: "string option"
  data_spotifyName :: "string option"
  data_lastFmName :: "string option"

text \<open>
  \<^verbatim>\<open>a || b\<close> on optional strings: \<open>a\<close> when it is defined and not empty, else \<open>b\<close>.
\<close>

definition orElse :: "string option \<Rightarrow> string option \<Rightarrow> string option" where
  "orElse a b = (case a of Some str \<Rightarrow> if str \<noteq> [] then Some str else b | None \<Rightarrow> b)"

definition setMapping :: "int \<Rightarrow> MappingData \<Rightarrow> mappings \<Rightarrow> mappings" where
  "setMapping now d ms =
     (let existing = map_of ms (data_unifiedId d);
          mapping = \<lparr>spotifyId = orElse (data_spotifyId d) (Option.bind existing spotifyId),
                     spotifyName = orElse (data_spotifyName d) (Option.bind existing spotifyName),
                     lastFmName = orElse (data_lastFmName d) (Option.bind existing lastFmName),
                     unifiedId = data_unifiedId d,
                     lastUpdated = now\<rparr>
      in AList.update (data_unifiedId d) mapping ms)"

text \<open>The table without the records that are older than \<open>TTL\<close> at time \<open>now\<close>.\<close>

definition unexpired :: "int \<Rightarrow> mappings \<Rightarrow> mappings" where
  "unexpired now ms = filter (\<lambda>(uid, mapping). now - lastUpdated mapping \<le> TTL) ms"

text \<open>A record used as a concrete input, written at time 0.\<close>

definition btsMapping :: ArtistMapping where
  "btsMapping = \<lparr>spotifyId = Some ''3Nrfpe0tUJi4K4DXYWgMUX'', spotifyName = Some ''BTS'',
                  lastFmName = Some ''BTS'', unifiedId = ''bts'', lastUpdated = 0\<rparr>"

section \<open>Stale-while-revalidate cache (class SWRCache)\<close>

datatype ContentType =
    CtArtistSearch | CtArtistData | CtArtistStats | CtTracks | CtSimilar
  | CtRelated | CtVideos | CtNews | CtTrending | CtArtistMapping

record CacheConfig =
  freshTTL :: int
  staleTTL :: int
  description :: string

fun CONFIG :: "ContentType \<Rightarrow> CacheConfig" where
  "CONFIG CtArtistSearch = \<lparr>freshTTL = 10 * 60 * 1000, staleTTL = 60 * 60 * 1000,
      description = ''Artist search results''\<rparr>"
| "CONFIG CtArtistData = \<lparr>freshTTL = 30 * 60 * 1000, staleTTL = 2 * 60 * 60 * 1000,
      description = ''Artist biographical data''\<rparr>"
| "CONFIG CtArtistStats = \<lparr>freshTTL = 60 * 60 * 1000, staleTTL = 4 * 60 * 60 * 1000,
      description = ''Artist followers/popularity stats''\<rparr>"
| "CONFIG CtTracks = \<lparr>freshTTL = 24 * 60 * 60 * 1000, staleTTL = 7 * 24 * 60 * 60 * 1000,
      description = ''Artist top tracks (rarely change)''\<rparr>"
| "CONFIG CtSimilar = \<lparr>freshTTL = 6 * 60 * 60 * 1000, staleTTL = 24 * 60 * 60 * 1000,
      description = ''Similar artists recommendations (legacy)''\<rparr>"
| "CONFIG CtRelated = \<lparr>freshTTL = 6 * 60 * 60 * 1000, staleTTL = 24 * 60 * 60 * 1000,
      description = ''Related artists from Spotify''\<rparr>"
| "CONFIG CtVideos = \<lparr>freshTTL = 6 * 60 * 60 * 1000, staleTTL = 24 * 60 * 60 * 1000,
      description = ''YouTube videos''\<rparr>"
| "CONFIG CtNews = \<lparr>freshTTL = 4 * 60 * 60 * 1000, staleTTL = 12 * 60 * 60 * 1000,
      description = ''Artist news articles''\<rparr>"
| "CONFIG CtTrending = \<lparr>freshTTL = 15 * 60 * 1000, staleTTL = 60 * 60 * 1000,
      description = ''Trending artists''\<rparr>"
| "CONFIG CtArtistMapping = \<lparr>freshTTL = 24 * 60 * 60 * 1000, staleTTL = 7 * 24 * 60 * 60 * 1000,
      description = ''Artist ID mappings''\<rparr>"

record 'v CacheEntry =
  data :: 'v
  createdAt :: int
  isRevalidating :: bool
  contentType :: ContentType

text \<open>The object \<^verbatim>\<open>{ data, isStale, source }\<close> that \<^verbatim>\<open>get\<close> resolves to.\<close>

datatype source = FromCache | Fresh

record 'v GetResult =
  result_data :: 'v
  isStale :: bool
  source :: source

text \<open>
  \<^verbatim>\<open>get\<close> and \<^verbatim>\<open>executeFetch\<close> are \<^verbatim>\<open>async\<close>: each runs synchronously up to its
  \<^verbatim>\<open>await\<close>, is suspended there, and is resumed by the event loop after the awaited promise
  has settled. The model is a step function on the state of the cache object together with
  the promises and the suspended calls.

  The event loop may resume the suspended calls whose promise has settled in any order,
  and other calls may arrive in between; the order JavaScript fixes for its microtasks is
  one of these. A revalidator is taken not to call back into this cache object before it
  returns its promise.

  A call \<^verbatim>\<open>revalidator()\<close> returns a new promise. \<open>upstream\<close> lists these promises in the
  order of the calls; promise \<open>p\<close> is \<open>upstream ! p\<close>, with the key it was called for, the
  closure that was called (closures are numbered by the caller) and its outcome: \<open>None\<close>
  while pending, \<open>Some (Inr v)\<close> fulfilled, \<open>Some (Inl err)\<close> rejected.
\<close>

record ('e, 'v) fetch =
  fetch_key :: string
  fetch_revalidator :: nat
  fetch_outcome :: "('e + 'v) option"

text \<open>
  What runs after \<^verbatim>\<open>executeFetch\<close> has returned to its caller:
  \<^item> \<open>GetCont caller now key contentType\<close>: the rest of \<^verbatim>\<open>get\<close> after
    \<^verbatim>\<open>await this.executeFetch(key, revalidator)\<close>, in the branch without an entry and in the
    branch of an expired entry (the two have the same code), with the values of its locals;
  \<^item> \<open>BackgroundCont key contentType\<close>: the \<^verbatim>\<open>.then\<close> and \<^verbatim>\<open>.catch\<close> handlers of
    \<^verbatim>\<open>triggerBackgroundRevalidation\<close>.
\<close>

datatype continuation =
    GetCont nat int string ContentType
  | BackgroundCont string ContentType

text \<open>
  The suspended calls of \<^verbatim>\<open>executeFetch\<close>, in the order they were made:
  \<^item> \<open>FetchOwner key p k\<close>: the call that invoked the revalidator, stored promise \<open>p\<close>
    under \<open>key\<close> and is suspended at \<^verbatim>\<open>await promise\<close> inside \<^verbatim>\<open>try\<close>;
  \<^item> \<open>FetchDone p k\<close>: that call after its \<^verbatim>\<open>finally\<close> block has run; its caller \<open>k\<close> has
    not been resumed yet;
  \<^item> \<open>FetchShared p k\<close>: a call that found promise \<open>p\<close> stored under its key and returned
    it; its caller \<open>k\<close> waits for \<open>p\<close>;
  \<^item> \<open>Completed\<close>: the caller has been resumed.
\<close>

datatype task =
    FetchOwner string nat continuation
  | FetchDone nat continuation
  | FetchShared nat continuation
  | Completed

text \<open>
  \<open>returned\<close> lists the settled \<^verbatim>\<open>get\<close> calls in the order they settled (callers are
  numbered): \<open>Inr\<close> the result object, \<open>Inl\<close> the error the call threw. \<open>errorLog\<close> lists
  what the \<^verbatim>\<open>.catch\<close> handler of the background revalidation passed to
  \<^verbatim>\<open>console.error\<close>.
\<close>

record ('e, 'v) swr =
  cache :: "string \<rightharpoonup> 'v CacheEntry"
  revalidationPromises :: "string \<rightharpoonup> nat"
  upstream :: "('e, 'v) fetch list"
  tasks :: "task list"
  returned :: "(nat \<times> ('e + 'v GetResult)) list"
  errorLog :: "(string \<times> 'e) list"

definition initial :: "('e, 'v) swr" where
  "initial = \<lparr>cache = Map.empty, revalidationPromises = Map.empty, upstream = [],
               tasks = [], returned = [], errorLog = []\<rparr>"

text \<open>
  \<^verbatim>\<open>executeFetch(key, revalidator)\<close> up to the point where it is suspended or returns the
  stored promise; \<open>k\<close> is what its caller does with the result.
\<close>

definition executeFetch :: "string \<Rightarrow> nat \<Rightarrow> continuation \<Rightarrow> ('e, 'v) swr \<Rightarrow> ('e, 'v) swr" where
  "executeFetch key revalidator k s =
     (case revalidationPromises s key of
        Some p \<Rightarrow> s\<lparr>tasks := tasks s @ [FetchShared p k]\<rparr>
      | None \<Rightarrow>
          (let p = length (upstream s)
           in s\<lparr>upstream := upstream s @
                   [\<lparr>fetch_key = key, fetch_revalidator = revalidator, fetch_outcome = None\<rparr>],
                 revalidationPromises := (revalidationPromises s)(key \<mapsto> p),
                 tasks := tasks s @ [FetchOwner key p k]\<rparr>))"

definition triggerBackgroundRevalidation ::
  "string \<Rightarrow> ContentType \<Rightarrow> nat \<Rightarrow> ('e, 'v) swr \<Rightarrow> ('e, 'v) swr" where
  "triggerBackgroundRevalidation key ct revalidator s =
     (let s1 = (case cache s key of
                  Some entry \<Rightarrow> s\<lparr>cache := (cache s)(key \<mapsto> entry\<lparr>isRevalidating := True\<rparr>)\<rparr>
                | None \<Rightarrow> s)
      in executeFetch key revalidator (BackgroundCont key ct) s1)"

text \<open>
  \<^verbatim>\<open>get(key, contentType, revalidator)\<close> called by \<open>caller\<close> at time \<open>now\<close>, up to its
  \<^verbatim>\<open>await\<close> or its \<^verbatim>\<open>return\<close>.
\<close>

definition get ::
  "nat \<Rightarrow> int \<Rightarrow> string \<Rightarrow> ContentType \<Rightarrow> nat \<Rightarrow> ('e, 'v) swr \<Rightarrow> ('e, 'v) swr" where
  "get caller now key ct revalidator s =
     (let config = CONFIG ct
      in case cache s key of
           None \<Rightarrow> executeFetch key revalidator (GetCont caller now key ct) s
         | Some entry \<Rightarrow>
             (let age = now - createdAt entry
              in if age > staleTTL config
                 then executeFetch key revalidator (GetCont caller now key ct) s
                 else if age \<le> freshTTL config
                 then s\<lparr>returned := returned s @
                          [(caller, Inr \<lparr>result_data = data entry, isStale = False,
                                          source = FromCache\<rparr>)]\<rparr>
                 else
                   (let s1 = (if \<not> isRevalidating entry
                              then triggerBackgroundRevalidation key ct revalidator s
                              else s)
                    in s1\<lparr>returned := returned s1 @
                           [(caller, Inr \<lparr>result_data = data entry, isStale = True,
                                           source = FromCache\<rparr>)]\<rparr>)))"

text \<open>\<^verbatim>\<open>set(key, data, contentType)\<close> at time \<open>now\<close>.\<close>

definition set_cache :: "int \<Rightarrow> string \<Rightarrow> 'v \<Rightarrow> ContentType \<Rightarrow> ('e, 'v) swr \<Rightarrow> ('e, 'v) swr" where
  "set_cache now key v ct s =
     s\<lparr>cache := (cache s)(key \<mapsto>
          \<lparr>data = v, createdAt = now, isRevalidating = False, contentType = ct\<rparr>)\<rparr>"

text \<open>
  \<^verbatim>\<open>cleanup()\<close> at time \<open>now\<close>: its effect on the table (the number it returns is not
  part of the state).
\<close>

definition cleanup :: "int \<Rightarrow> ('e, 'v) swr \<Rightarrow> ('e, 'v) swr" where
  "cleanup now s =
     s\<lparr>cache := (\<lambda>key. case cache s key of
                        None \<Rightarrow> None
                      | Some entry \<Rightarrow>
                          if now - createdAt entry > staleTTL (CONFIG (contentType entry))
                          then None else Some entry)\<rparr>"

text \<open>
  The caller of \<^verbatim>\<open>executeFetch\<close> resumed at time \<open>t\<close> with the outcome of the fetch.
\<close>

fun runContinuation ::
  "continuation \<Rightarrow> int \<Rightarrow> ('e + 'v) \<Rightarrow> ('e, 'v) swr \<Rightarrow> ('e, 'v) swr" where
  "runContinuation (GetCont caller now key ct) t (Inr freshData) s =
     s\<lparr>cache := (cache s)(key \<mapsto>
          \<lparr>data = freshData, createdAt = now, isRevalidating = False, contentType = ct\<rparr>),
       returned := returned s @
          [(caller, Inr \<lparr>result_data = freshData, isStale = False, source = Fresh\<rparr>)]\<rparr>"
| "runContinuation (GetCont caller now key ct) t (Inl err) s =
     s\<lparr>returned := returned s @ [(caller, Inl err)]\<rparr>"
| "runContinuation (BackgroundCont key ct) t (Inr freshData) s =
     s\<lparr>cache := (cache s)(key \<mapsto>
          \<lparr>data = freshData, createdAt = t, isRevalidating = False, contentType = ct\<rparr>)\<rparr>"
| "runContinuation (BackgroundCont key ct) t (Inl err) s =
     s\<lparr>cache := (case cache s key of
                     Some entry \<Rightarrow> (cache s)(key \<mapsto> entry\<lparr>isRevalidating := False\<rparr>)
                   | None \<Rightarrow> cache s),
       errorLog := errorLog s @ [(key, err)]\<rparr>"

definition outcome :: "('e, 'v) swr \<Rightarrow> nat \<Rightarrow> ('e + 'v) option" where
  "outcome s p = (if p < length (upstream s) then fetch_outcome (upstream s ! p) else None)"

text \<open>The upstream promise \<open>p\<close> settles; only a pending promise can.\<close>

definition settle :: "nat \<Rightarrow> ('e + 'v) \<Rightarrow> ('e, 'v) swr \<Rightarrow> ('e, 'v) swr option" where
  "settle p out s =
     (if p < length (upstream s) \<and> fetch_outcome (upstream s ! p) = None
      then Some (s\<lparr>upstream := (upstream s)[p := (upstream s ! p)\<lparr>fetch_outcome := Some out\<rparr>]\<rparr>)
      else None)"

text \<open>
  The event loop resumes suspended call \<open>i\<close> at time \<open>t\<close>; it can only when the promise
  the call waits for has settled. Resuming the owner runs
  \<^verbatim>\<open>finally { this.revalidationPromises.delete(key) }\<close> and settles the promise of
  \<^verbatim>\<open>executeFetch\<close>; its caller is resumed in a later step.
\<close>

definition runTask :: "nat \<Rightarrow> int \<Rightarrow> ('e, 'v) swr \<Rightarrow> ('e, 'v) swr option" where
  "runTask i t s =
     (if i < length (tasks s) then
        (case tasks s ! i of
           FetchOwner key p k \<Rightarrow>
             (case outcome s p of
                None \<Rightarrow> None
              | Some out \<Rightarrow>
                  Some (s\<lparr>revalidationPromises := (revalidationPromises s)(key := None),
                          tasks := (tasks s)[i := FetchDone p k]\<rparr>))
         | FetchDone p k \<Rightarrow>
             (case outcome s p of
                None \<Rightarrow> None
              | Some out \<Rightarrow> Some (runContinuation k t out (s\<lparr>tasks := (tasks s)[i := Completed]\<rparr>)))
         | FetchShared p k \<Rightarrow>
             (case outcome s p of
                None \<Rightarrow> None
              | Some out \<Rightarrow> Some (runContinuation k t out (s\<lparr>tasks := (tasks s)[i := Completed]\<rparr>)))
         | Completed \<Rightarrow> None)
      else None)"

text \<open>
  What can happen to the cache object: a call to one of its public methods, an upstream
  promise settling, or the event loop resuming a suspended call.
\<close>

datatype ('e, 'v) event =
    EvGet nat int string ContentType nat
  | EvSet int string 'v ContentType
  | EvCleanup int
  | EvSettle nat "'e + 'v"
  | EvRun nat int

fun step :: "('e, 'v) event \<Rightarrow> ('e, 'v) swr \<Rightarrow> ('e, 'v) swr option" where
  "step (EvGet caller now key ct revalidator) s = Some (get caller now key ct revalidator s)"
| "step (EvSet now key v ct) s = Some (set_cache now key v ct s)"
| "step (EvCleanup now) s = Some (cleanup now s)"
| "step (EvSettle p out) s = settle p out s"
| "step (EvRun i t) s = runTask i t s"

fun run :: "('e, 'v) event list \<Rightarrow> ('e, 'v) swr \<Rightarrow> ('e, 'v) swr option" where
  "run [] s = Some s"
| "run (ev # evs) s = (case step ev s of None \<Rightarrow> None | Some s' \<Rightarrow> run evs s')"

text \<open>The calls to the revalidator for \<open>key\<close> that are in flight: their promise is pending.\<close>

definition inFlight :: "('e, 'v) swr \<Rightarrow> string \<Rightarrow> ('e, 'v) fetch list" where
  "inFlight s key = filter (\<lambda>f. fetch_key f = key \<and> fetch_outcome f = None) (upstream s)"




text \<open>The state with the entry of \<open>key\<close> removed from the table.\<close>

definition withoutEntry :: "string \<Rightarrow> ('e, 'v) swr \<Rightarrow> ('e, 'v) swr" where
  "withoutEntry key s = s\<lparr>cache := (cache s)(key := None)\<rparr>"

text \<open>
  The bookkeeping that single flight rests on, as a predicate on states: a pending upstream
  promise is the one stored under its key in \<^verbatim>\<open>revalidationPromises\<close>; the suspended
  owner of a key is the call whose promise is stored under that key; a key has at most one
  suspended owner.
\<close>

definition singleFlight :: "('e, 'v) swr \<Rightarrow> bool" where
  "singleFlight s \<longleftrightarrow>
     (\<forall>p < length (upstream s).
        fetch_outcome (upstream s ! p) = None \<longrightarrow>
        revalidationPromises s (fetch_key (upstream s ! p)) = Some p) \<and>
     (\<forall>i < length (tasks s). \<forall>key p k.
        tasks s ! i = FetchOwner key p k \<longrightarrow> revalidationPromises s key = Some p) \<and>
     (\<forall>i < length (tasks s). \<forall>j < length (tasks s). \<forall>key p k p' k'.
        tasks s ! i = FetchOwner key p k \<and> tasks s ! j = FetchOwner key p' k' \<longrightarrow> i = j)"

text \<open>
  What a \<^verbatim>\<open>get\<close> call that awaited the fetch resolves or rejects with, given the outcome of
  the fetch.
\<close>

fun delivered :: "'e + 'v \<Rightarrow> 'e + 'v GetResult" where
  "delivered (Inl err) = Inl err"
| "delivered (Inr v) = Inr \<lparr>result_data = v, isStale = False, source = Fresh\<rparr>"

text \<open>
  Suspended call \<open>i\<close> belongs to a \<^verbatim>\<open>get\<close> of \<open>caller\<close> that waits for upstream promise
  \<open>p\<close>; and: call \<open>i\<close> has been resumed and \<open>caller\<close> has received what the outcome of \<open>p\<close>
  delivers.
\<close>

fun waitsFor :: "task \<Rightarrow> (nat \<times> nat) option" where
  "waitsFor (FetchOwner key p (GetCont caller now key' ct)) = Some (p, caller)"
| "waitsFor (FetchDone p (GetCont caller now key' ct)) = Some (p, caller)"
| "waitsFor (FetchShared p (GetCont caller now key' ct)) = Some (p, caller)"
| "waitsFor (FetchOwner key p (BackgroundCont key' ct)) = None"
| "waitsFor (FetchDone p (BackgroundCont key' ct)) = None"
| "waitsFor (FetchShared p (BackgroundCont key' ct)) = None"
| "waitsFor Completed = None"

definition awaiting :: "('e, 'v) swr \<Rightarrow> nat \<Rightarrow> nat \<Rightarrow> nat \<Rightarrow> bool" where
  "awaiting s i p caller \<longleftrightarrow> i < length (tasks s) \<and> waitsFor (tasks s ! i) = Some (p, caller)"


section \<open>Properties of the rate limiter\<close>

subsection \<open>The entries after \<^verbatim>\<open>getOrCreateEntry\<close>\<close>

lemma endpoint_key_not_global: "endpoint_key ep \<noteq> ''global''"
  by (cases ep) simp_all

lemma endpointLimit_LIMITS:
  "map_of LIMITS (endpoint_key ep) = Some (endpointLimit ep) \<and>
   map_of LIMITS ''global'' = Some globalLimit"
  by (cases ep) (simp_all add: LIMITS_def globalLimit_def)

lemma goc_other: "k' \<noteq> k \<Longrightarrow> snd (getOrCreateEntry now k lims) k' = lims k'"
  by (simp add: getOrCreateEntry_def Let_def)

lemma goc_snd: "snd (getOrCreateEntry now k lims) = lims(k \<mapsto> fst (getOrCreateEntry now k lims))"
  by (simp add: getOrCreateEntry_def Let_def)

lemma goc_fst_cong:
  "lims k = lims' k \<Longrightarrow> fst (getOrCreateEntry now k lims) = fst (getOrCreateEntry now k lims')"
  by (simp add: getOrCreateEntry_def Let_def)

lemma goc_counts_new:
  "lims k = None \<Longrightarrow>
     count (fst (getOrCreateEntry now k lims)) = 0 \<and>
     burstCount (fst (getOrCreateEntry now k lims)) = 0"
  by (simp add: getOrCreateEntry_def Let_def split: option.splits)

lemma goc_counts_old:
  "lims k = Some e \<Longrightarrow>
    (count (fst (getOrCreateEntry now k lims)) = count e \<or>
     count (fst (getOrCreateEntry now k lims)) = 0) \<and>
    (burstCount (fst (getOrCreateEntry now k lims)) = burstCount e \<or>
     burstCount (fst (getOrCreateEntry now k lims)) = 0)"
  by (simp add: getOrCreateEntry_def Let_def split: option.splits)

lemma goc_block_kept:
  assumes "lims k = Some e" "blocked e" "blockUntil e = Some b" "now < b" "now \<le> resetTime e"
  shows "blocked (fst (getOrCreateEntry now k lims)) \<and>
         blockUntil (fst (getOrCreateEntry now k lims)) = Some b \<and>
         resetTime (fst (getOrCreateEntry now k lims)) = resetTime e"
  using assms by (simp add: getOrCreateEntry_def Let_def)

lemma endpoint_max_pos: "0 < limit_max (endpointLimit ep)"
  by (cases ep) simp_all

lemma goc_window_end:
  assumes "lims k = Some e" "resetTime e < t"
  shows "\<not> blocked (fst (getOrCreateEntry t k lims)) \<and>
         blockUntil (fst (getOrCreateEntry t k lims)) = None \<and>
         count (fst (getOrCreateEntry t k lims)) = 0 \<and>
         resetTime (fst (getOrCreateEntry t k lims)) = t + getWindow k"
  using assms by (simp add: getOrCreateEntry_def Let_def)

lemma goc_cooldown_end:
  assumes "lims k = Some e" "blocked e" "blockUntil e = Some b" "b \<noteq> 0" "b \<le> t"
    "t \<le> resetTime e"
  shows "\<not> blocked (fst (getOrCreateEntry t k lims)) \<and>
         blockUntil (fst (getOrCreateEntry t k lims)) = None \<and>
         count (fst (getOrCreateEntry t k lims)) = 0 \<and>
         burstCount (fst (getOrCreateEntry t k lims)) = 0 \<and>
         resetTime (fst (getOrCreateEntry t k lims)) = resetTime e"
  using assms by (simp add: getOrCreateEntry_def Let_def)

lemma goc_no_cooldown:
  assumes "lims k = Some e" "blocked e" "blockUntil e = None \<or> blockUntil e = Some 0"
    "t \<le> resetTime e"
  shows "blocked (fst (getOrCreateEntry t k lims)) \<and>
         blockUntil (fst (getOrCreateEntry t k lims)) = blockUntil e \<and>
         count (fst (getOrCreateEntry t k lims)) = count e \<and>
         resetTime (fst (getOrCreateEntry t k lims)) = resetTime e"
  using assms by (auto simp add: getOrCreateEntry_def Let_def)

lemma goc_block_over:
  assumes "lims k = Some e"
    "resetTime e < t \<or> (blocked e \<and> blockUntil e = Some b \<and> b \<noteq> 0 \<and> b \<le> t)"
  shows "\<not> blocked (fst (getOrCreateEntry t k lims)) \<and>
         count (fst (getOrCreateEntry t k lims)) = 0"
  using assms by (auto simp add: getOrCreateEntry_def Let_def)


lemma globalEntryOf_eq:
  "globalEntryOf now endpoint lims = fst (getOrCreateEntry now ''global'' lims)"
  unfolding globalEntryOf_def
  by (rule goc_fst_cong) (simp add: goc_other endpoint_key_not_global[symmetric])

subsection \<open>When a call is accepted, and the table a rejected call leaves\<close>

lemma checkLimit_allowed_iff:
  "allowed (fst (checkLimit dev now ep lims)) \<longleftrightarrow>
     \<not> blocked (endpointEntryOf now ep lims) \<and> \<not> blocked (globalEntryOf now ep lims) \<and>
     count (endpointEntryOf now ep lims) < limit_max (endpointLimit ep) \<and>
     count (globalEntryOf now ep lims) < limit_max globalLimit \<and>
     \<not> (\<not> dev \<and> burstCount (globalEntryOf now ep lims) \<ge> burstMax \<and>
        ceilSeconds (lastBurstReset (globalEntryOf now ep lims) + burstWindow - now) \<le> 3)"
  by (auto simp add: checkLimit_def endpointEntryOf_def globalEntryOf_def Let_def case_prod_beta)

lemma checkLimitWithoutIncrement_allowed_iff:
  "allowed (fst (checkLimitWithoutIncrement now ep lims)) \<longleftrightarrow>
     \<not> blocked (endpointEntryOf now ep lims) \<and> \<not> blocked (globalEntryOf now ep lims)"
  by (auto simp add: checkLimitWithoutIncrement_def endpointEntryOf_def globalEntryOf_def
      Let_def case_prod_beta)

lemma checkLimit_rejected_state:
  assumes "\<not> allowed (fst (checkLimit dev now ep lims))"
    and "snd (checkLimit dev now ep lims) k = Some e'"
  shows "(k = endpoint_key ep \<longrightarrow>
            count e' = count (endpointEntryOf now ep lims) \<and>
            burstCount e' = burstCount (endpointEntryOf now ep lims) \<and>
            resetTime e' = resetTime (endpointEntryOf now ep lims) \<and>
            (blocked (endpointEntryOf now ep lims) \<longrightarrow> e' = endpointEntryOf now ep lims)) \<and>
         (k = ''global'' \<longrightarrow>
            count e' = count (globalEntryOf now ep lims) \<and>
            burstCount e' = burstCount (globalEntryOf now ep lims) \<and>
            resetTime e' = resetTime (globalEntryOf now ep lims) \<and>
            (blocked (endpointEntryOf now ep lims) \<or> blocked (globalEntryOf now ep lims)
               \<longrightarrow> e' = globalEntryOf now ep lims)) \<and>
         (k \<noteq> endpoint_key ep \<and> k \<noteq> ''global'' \<longrightarrow> lims k = Some e')"
  using assms endpoint_key_not_global[of ep]
  by (auto simp add: checkLimit_def endpointEntryOf_def globalEntryOf_def Let_def
      case_prod_beta goc_snd split: if_splits)

lemma checkLimitWithoutIncrement_state:
  "snd (checkLimitWithoutIncrement now ep lims) =
     lims(endpoint_key ep \<mapsto> endpointEntryOf now ep lims,
          ''global'' \<mapsto> globalEntryOf now ep lims)"
  by (auto simp add: checkLimitWithoutIncrement_def endpointEntryOf_def globalEntryOf_def
      Let_def case_prod_beta goc_snd)

lemma checkLimit_has_entries:
  "snd (checkLimit dev now ep lims) (endpoint_key ep) \<noteq> None \<and>
   snd (checkLimit dev now ep lims) ''global'' \<noteq> None"
  using endpoint_key_not_global[of ep]
  by (auto simp add: checkLimit_def Let_def case_prod_beta goc_snd)

lemma entry_counts_not_raised:
  "case lims k of
     None \<Rightarrow> count (fst (getOrCreateEntry now k lims)) = 0 \<and>
             burstCount (fst (getOrCreateEntry now k lims)) = 0
   | Some e \<Rightarrow> (count (fst (getOrCreateEntry now k lims)) = count e \<or>
                count (fst (getOrCreateEntry now k lims)) = 0) \<and>
               (burstCount (fst (getOrCreateEntry now k lims)) = burstCount e \<or>
                burstCount (fst (getOrCreateEntry now k lims)) = 0)"
  using goc_counts_new[of lims k now] goc_counts_old[of lims k _ now]
  by (cases "lims k") auto

subsection \<open>Accepted calls, and how the concrete tables are reached\<close>

lemma accepted_run:
  assumes "lims (endpoint_key ep) = Some e" and "lims ''global'' = Some g"
    and "\<not> blocked e" and "\<not> blocked g"
    and "now \<le> resetTime e" and "now \<le> resetTime g"
    and "now \<le> lastBurstReset e + burstWindow" and "now \<le> lastBurstReset g + burstWindow"
    and "count e + n \<le> limit_max (endpointLimit ep)"
    and "count g + n \<le> limit_max globalLimit"
    and "burstCount g + n \<le> burstMax"
  shows "snd (checkLimitSeq dev (replicate n (now, ep)) lims) =
         lims(endpoint_key ep \<mapsto> e\<lparr>count := count e + n\<rparr>,
              ''global'' \<mapsto> g\<lparr>count := count g + n,
                                 burstCount := (if dev then burstCount g else burstCount g + n)\<rparr>)"
  using assms
proof (induction n arbitrary: lims e g)
  case 0
  then show ?case by (auto simp: fun_eq_iff)
next
  case (Suc n)
  have ne: "endpoint_key ep \<noteq> ''global''" by (rule endpoint_key_not_global)
  let ?e1 = "e\<lparr>count := count e + 1\<rparr>"
  let ?g1 = "g\<lparr>count := count g + 1,
               burstCount := (if dev then burstCount g else burstCount g + 1)\<rparr>"
  have goc_e: "getOrCreateEntry now (endpoint_key ep) lims = (e, lims(endpoint_key ep \<mapsto> e))"
    using Suc.prems by (simp add: getOrCreateEntry_def Let_def split: option.splits)
  have goc_g: "getOrCreateEntry now ''global'' (lims(endpoint_key ep \<mapsto> e)) =
                 (g, lims(endpoint_key ep \<mapsto> e, ''global'' \<mapsto> g))"
    using Suc.prems ne by (simp add: getOrCreateEntry_def Let_def split: option.splits)
  have step: "snd (checkLimit dev now ep lims) =
                lims(endpoint_key ep \<mapsto> ?e1, ''global'' \<mapsto> ?g1)"
    using Suc.prems ne by (auto simp add: checkLimit_def goc_e goc_g Let_def fun_eq_iff)
  let ?l1 = "lims(endpoint_key ep \<mapsto> ?e1, ''global'' \<mapsto> ?g1)"
  have "snd (checkLimitSeq dev (replicate n (now, ep)) ?l1) =
         ?l1(endpoint_key ep \<mapsto> ?e1\<lparr>count := count ?e1 + n\<rparr>,
              ''global'' \<mapsto> ?g1\<lparr>count := count ?g1 + n,
                 burstCount := (if dev then burstCount ?g1 else burstCount ?g1 + n)\<rparr>)"
    using Suc.prems ne by (intro Suc.IH) auto
  then show ?case using ne
    by (auto simp add: step case_prod_beta Let_def fun_eq_iff)
qed

lemmas limiter_consts =
  getOrCreateEntry_def getWindow_def LIMITS_def blockDuration_def burstWindow_def
  burstMax_def globalLimit_def ceilSeconds_def Let_def

lemma quotaUsed_reached:
  "snd (checkLimitSeq False
          ((1, EpSpotifyAlbums) # (290000, EpSpotifyAlbums) # replicate 48 (290000, EpSpotifyAlbums))
          Map.empty) = quotaUsed"
proof -
  let ?e = "\<lparr>count = 2, resetTime = 300001, blocked = False, blockUntil = None,
             burstCount = 0, lastBurstReset = 290000\<rparr>"
  let ?g = "\<lparr>count = 1, resetTime = 350000, blocked = False, blockUntil = None,
             burstCount = 1, lastBurstReset = 290000\<rparr>"
  let ?s1 = "snd (checkLimit False 1 EpSpotifyAlbums Map.empty)"
  let ?s2 = "snd (checkLimit False 290000 EpSpotifyAlbums ?s1)"
  have s1: "?s1 = Map.empty
      (''spotify-albums'' \<mapsto> \<lparr>count = 1, resetTime = 300001, blocked = False,
          blockUntil = None, burstCount = 0, lastBurstReset = 1\<rparr>,
       ''global'' \<mapsto> \<lparr>count = 1, resetTime = 60001, blocked = False,
          blockUntil = None, burstCount = 1, lastBurstReset = 1\<rparr>)"
    by (simp add: checkLimit_def limiter_consts)
  have s2: "?s2 = Map.empty(''spotify-albums'' \<mapsto> ?e, ''global'' \<mapsto> ?g)"
    unfolding s1 by (simp add: checkLimit_def limiter_consts fun_eq_iff)
  have "snd (checkLimitSeq False (replicate 48 (290000, EpSpotifyAlbums)) ?s2) =
        ?s2(endpoint_key EpSpotifyAlbums \<mapsto> ?e\<lparr>count := count ?e + 48\<rparr>,
            ''global'' \<mapsto> ?g\<lparr>count := count ?g + 48,
               burstCount := (if False then burstCount ?g else burstCount ?g + 48)\<rparr>)"
    by (rule accepted_run) (simp_all add: s2 burstWindow_def burstMax_def globalLimit_def)
  then show ?thesis
    by (simp add: case_prod_beta Let_def s2 quotaUsed_def fun_eq_iff)
qed

lemma quotaBlocked_reached:
  "snd (checkLimit False 290000 EpSpotifyAlbums quotaUsed) = quotaBlocked"
  by (simp add: checkLimit_def limiter_consts quotaUsed_def quotaBlocked_def fun_eq_iff)

lemma quotaBlockedEarly_reached:
  "snd (checkLimitSeq False
          ((1, EpSpotifyAlbums) # replicate 49 (1, EpSpotifyAlbums) @ [(1, EpSpotifyAlbums)])
          Map.empty) = quotaBlockedEarly"
proof -
  let ?e = "\<lparr>count = 1, resetTime = 300001, blocked = False, blockUntil = None,
             burstCount = 0, lastBurstReset = 1\<rparr>"
  let ?g = "\<lparr>count = 1, resetTime = 60001, blocked = False, blockUntil = None,
             burstCount = 1, lastBurstReset = 1\<rparr>"
  let ?s1 = "snd (checkLimit False 1 EpSpotifyAlbums Map.empty)"
  have s1: "?s1 = Map.empty(''spotify-albums'' \<mapsto> ?e, ''global'' \<mapsto> ?g)"
    by (simp add: checkLimit_def limiter_consts)
  have seq_app: "\<And>xs ys l. snd (checkLimitSeq False (xs @ ys) l) =
                   snd (checkLimitSeq False ys (snd (checkLimitSeq False xs l)))"
  proof -
    fix xs ys l
    show "snd (checkLimitSeq False (xs @ ys) l) =
                   snd (checkLimitSeq False ys (snd (checkLimitSeq False xs l)))"
      by (induction xs arbitrary: l) (auto simp: case_prod_beta Let_def)
  qed
  have s50: "snd (checkLimitSeq False (replicate 49 (1, EpSpotifyAlbums)) ?s1) =
        ?s1(endpoint_key EpSpotifyAlbums \<mapsto> ?e\<lparr>count := count ?e + 49\<rparr>,
            ''global'' \<mapsto> ?g\<lparr>count := count ?g + 49,
               burstCount := (if False then burstCount ?g else burstCount ?g + 49)\<rparr>)"
    by (rule accepted_run) (simp_all add: s1 burstWindow_def burstMax_def globalLimit_def)
  have last: "snd (checkLimit False 1 EpSpotifyAlbums
        (?s1(endpoint_key EpSpotifyAlbums \<mapsto> ?e\<lparr>count := count ?e + 49\<rparr>,
            ''global'' \<mapsto> ?g\<lparr>count := count ?g + 49,
               burstCount := (if False then burstCount ?g else burstCount ?g + 49)\<rparr>))) = quotaBlockedEarly"
    unfolding s1
    by (simp add: checkLimit_def limiter_consts quotaBlockedEarly_def fun_eq_iff)
  have split: "snd (checkLimitSeq False
          ((1, EpSpotifyAlbums) # replicate 49 (1, EpSpotifyAlbums) @ [(1, EpSpotifyAlbums)])
          Map.empty) =
        snd (checkLimit False 1 EpSpotifyAlbums
          (snd (checkLimitSeq False (replicate 49 (1, EpSpotifyAlbums)) ?s1)))"
    by (simp add: case_prod_beta Let_def seq_app)
  show ?thesis
    unfolding split s50 by (rule last)
qed

subsection \<open>A block and the window of its counter\<close>

lemma block_step:
  assumes k: "k = endpoint_key ep \<or> k = ''global''"
    and e: "lims k = Some e" "blocked e" "blockUntil e = Some b"
    and t: "now < b" "now \<le> resetTime e"
  shows "\<not> allowed (fst (checkLimit dev now ep lims)) \<and>
         (\<exists>e'. snd (checkLimit dev now ep lims) k = Some e' \<and> blocked e' \<and>
               blockUntil e' = Some b \<and> resetTime e' = resetTime e)"
proof -
  from k show ?thesis
  proof
    assume kk: "k = endpoint_key ep"
    have kept: "blocked (endpointEntryOf now ep lims) \<and>
                blockUntil (endpointEntryOf now ep lims) = Some b \<and>
                resetTime (endpointEntryOf now ep lims) = resetTime e"
      unfolding endpointEntryOf_def
      using goc_block_kept[of lims "endpoint_key ep" e b now] e t kk by simp
    then have rej: "\<not> allowed (fst (checkLimit dev now ep lims))"
      by (simp add: checkLimit_allowed_iff)
    obtain e' where e': "snd (checkLimit dev now ep lims) k = Some e'"
      using checkLimit_has_entries[of dev now ep lims] kk by auto
    from checkLimit_rejected_state[OF rej e'] kk kept have "e' = endpointEntryOf now ep lims"
      by simp
    with kept e' rej show ?thesis by simp
  next
    assume kk: "k = ''global''"
    have kept: "blocked (globalEntryOf now ep lims) \<and>
                blockUntil (globalEntryOf now ep lims) = Some b \<and>
                resetTime (globalEntryOf now ep lims) = resetTime e"
      unfolding globalEntryOf_eq
      using goc_block_kept[of lims "''global''" e b now] e t kk by simp
    then have rej: "\<not> allowed (fst (checkLimit dev now ep lims))"
      by (simp add: checkLimit_allowed_iff)
    obtain e' where e': "snd (checkLimit dev now ep lims) k = Some e'"
      using checkLimit_has_entries[of dev now ep lims] kk by auto
    from checkLimit_rejected_state[OF rej e'] kk kept have "e' = globalEntryOf now ep lims"
      by simp
    with kept e' rej show ?thesis by simp
  qed
qed

lemma block_kept_over_calls:
  assumes "lims k = Some e" and "blocked e" and "blockUntil e = Some b"
    and "\<forall>(now, ep) \<in> set calls.
           now < b \<and> now \<le> resetTime e \<and> (k = endpoint_key ep \<or> k = ''global'')"
  shows "length (fst (checkLimitSeq dev calls lims)) = length calls \<and>
         (\<forall>r \<in> set (fst (checkLimitSeq dev calls lims)). \<not> allowed r) \<and>
         (\<exists>e'. snd (checkLimitSeq dev calls lims) k = Some e' \<and> blocked e' \<and>
               blockUntil e' = Some b \<and> resetTime e' = resetTime e)"
  using assms
proof (induction calls arbitrary: lims e)
  case Nil
  then show ?case by simp
next
  case (Cons c calls)
  obtain now ep where c: "c = (now, ep)" by (cases c)
  from Cons.prems(4) c have t: "now < b" "now \<le> resetTime e"
    and k: "k = endpoint_key ep \<or> k = ''global''"
    by auto
  from block_step[of k ep lims e b now dev] k Cons.prems(1-3) t
  obtain e' where rej: "\<not> allowed (fst (checkLimit dev now ep lims))"
    and e': "snd (checkLimit dev now ep lims) k = Some e'" "blocked e'" "blockUntil e' = Some b"
    and rt: "resetTime e' = resetTime e" by blast
  have rest: "\<forall>(now, ep) \<in> set calls.
      now < b \<and> now \<le> resetTime e' \<and> (k = endpoint_key ep \<or> k = ''global'')"
    using Cons.prems(4) rt by auto
  from Cons.IH[of "snd (checkLimit dev now ep lims)" e'] e' rest rej rt c show ?case
    by (auto simp: case_prod_beta Let_def)
qed

lemma block_over_endpoint:
  assumes "lims (endpoint_key ep) = Some e"
    "resetTime e < t \<or> (blocked e \<and> blockUntil e = Some b \<and> b \<noteq> 0 \<and> b \<le> t)"
  shows "allowed (fst (checkLimit dev t ep lims)) \<longleftrightarrow>
           \<not> blocked (globalEntryOf t ep lims) \<and>
           count (globalEntryOf t ep lims) < limit_max globalLimit \<and>
           \<not> (\<not> dev \<and> burstCount (globalEntryOf t ep lims) \<ge> burstMax \<and>
              ceilSeconds (lastBurstReset (globalEntryOf t ep lims) + burstWindow - t) \<le> 3)"
  using goc_block_over[of lims "endpoint_key ep" e t b] assms endpoint_max_pos[of ep]
  by (simp add: checkLimit_allowed_iff endpointEntryOf_def)

lemma block_over_global:
  assumes "lims ''global'' = Some g"
    "resetTime g < t \<or> (blocked g \<and> blockUntil g = Some b \<and> b \<noteq> 0 \<and> b \<le> t)"
  shows "allowed (fst (checkLimit dev t ep lims)) \<longleftrightarrow>
           \<not> blocked (endpointEntryOf t ep lims) \<and>
           count (endpointEntryOf t ep lims) < limit_max (endpointLimit ep) \<and>
           \<not> (\<not> dev \<and> burstCount (globalEntryOf t ep lims) \<ge> burstMax \<and>
              ceilSeconds (lastBurstReset (globalEntryOf t ep lims) + burstWindow - t) \<le> 3)"
  using goc_block_over[of lims "''global''" g t b] assms
  by (simp add: checkLimit_allowed_iff globalEntryOf_eq globalLimit_def)

text \<open>
  Claim C2, as the code has it. A counter that is blocked with \<^verbatim>\<open>blockUntil\<close> \<open>= b\<close> rejects
  every \<^verbatim>\<open>checkLimit\<close> call made against it (calls for its endpoint, or any call when it is
  the global counter) at a time that is before \<open>b\<close> and not after the \<^verbatim>\<open>resetTime\<close> of the
  counter's window, and such calls leave the block, its \<^verbatim>\<open>blockUntil\<close> and the window in
  place. The block ends at the end of the window or at \<open>b\<close>, whichever comes first:

    \<^item> at an access after the window has elapsed (\<open>resetTime < t\<close>), \<^verbatim>\<open>getOrCreateEntry\<close>
      returns the counter with \<^verbatim>\<open>blocked\<close> false, no \<^verbatim>\<open>blockUntil\<close>, count 0 and a new window,
      also when \<open>t < b\<close>;

    \<^item> within the window, at an access with \<open>b \<le> t\<close>, it returns the counter with \<^verbatim>\<open>blocked\<close>
      false, no \<^verbatim>\<open>blockUntil\<close>, and count and burst count 0, when \<open>b\<close> is not 0;

    \<^item> a blocked counter whose \<^verbatim>\<open>blockUntil\<close> is 0 or missing stays blocked within its window
      (the tests of \<^verbatim>\<open>blockUntil\<close> are tests of truthiness; \<^verbatim>\<open>checkLimit\<close> itself sets
      \<^verbatim>\<open>blockUntil\<close> to the time of the call plus 30000).

  The entries \<^verbatim>\<open>checkLimit\<close> tests are the ones \<^verbatim>\<open>getOrCreateEntry\<close> returns for the key of the
  endpoint and for \<^verbatim>\<open>global\<close>. So at the access that ends the block of the endpoint's
  counter, \<^verbatim>\<open>checkLimit\<close> accepts exactly when the global counter is not blocked, is below
  its maximum, and the burst throttle does not apply; at the access that ends the block of
  the global counter, exactly when the endpoint's counter is not blocked, is below its
  maximum, and the burst throttle does not apply.
\<close>

theorem block_rejects_while_window_and_cooldown_last:
  "(lims k = Some e \<and> blocked e \<and> blockUntil e = Some b \<and>
    (\<forall>(now, ep) \<in> set calls.
        now < b \<and> now \<le> resetTime e \<and> (k = endpoint_key ep \<or> k = ''global'')) \<longrightarrow>
      length (fst (checkLimitSeq dev calls lims)) = length calls \<and>
      (\<forall>r \<in> set (fst (checkLimitSeq dev calls lims)). \<not> allowed r) \<and>
      (\<exists>e'. snd (checkLimitSeq dev calls lims) k = Some e' \<and> blocked e' \<and>
            blockUntil e' = Some b \<and> resetTime e' = resetTime e)) \<and>
   (lims k = Some e \<and> resetTime e < t \<longrightarrow>
      \<not> blocked (fst (getOrCreateEntry t k lims)) \<and>
      blockUntil (fst (getOrCreateEntry t k lims)) = None \<and>
      count (fst (getOrCreateEntry t k lims)) = 0 \<and>
      resetTime (fst (getOrCreateEntry t k lims)) = t + getWindow k) \<and>
   (lims k = Some e \<and> blocked e \<and> blockUntil e = Some b \<and> b \<noteq> 0 \<and> b \<le> t \<and>
    t \<le> resetTime e \<longrightarrow>
      \<not> blocked (fst (getOrCreateEntry t k lims)) \<and>
      blockUntil (fst (getOrCreateEntry t k lims)) = None \<and>
      count (fst (getOrCreateEntry t k lims)) = 0 \<and>
      burstCount (fst (getOrCreateEntry t k lims)) = 0 \<and>
      resetTime (fst (getOrCreateEntry t k lims)) = resetTime e) \<and>
   (lims k = Some e \<and> blocked e \<and> (blockUntil e = None \<or> blockUntil e = Some 0) \<and>
    t \<le> resetTime e \<longrightarrow>
      blocked (fst (getOrCreateEntry t k lims)) \<and>
      blockUntil (fst (getOrCreateEntry t k lims)) = blockUntil e \<and>
      count (fst (getOrCreateEntry t k lims)) = count e \<and>
      resetTime (fst (getOrCreateEntry t k lims)) = resetTime e) \<and>
   endpointEntryOf t ep lims = fst (getOrCreateEntry t (endpoint_key ep) lims) \<and>
   globalEntryOf t ep lims = fst (getOrCreateEntry t ''global'' lims) \<and>
   (lims (endpoint_key ep) = Some e \<and>
    (resetTime e < t \<or> (blocked e \<and> blockUntil e = Some b \<and> b \<noteq> 0 \<and> b \<le> t)) \<longrightarrow>
      (allowed (fst (checkLimit dev t ep lims)) \<longleftrightarrow>
         \<not> blocked (globalEntryOf t ep lims) \<and>
         count (globalEntryOf t ep lims) < limit_max globalLimit \<and>
         \<not> (\<not> dev \<and> burstCount (globalEntryOf t ep lims) \<ge> burstMax \<and>
            ceilSeconds (lastBurstReset (globalEntryOf t ep lims) + burstWindow - t) \<le> 3))) \<and>
   (lims ''global'' = Some e \<and>
    (resetTime e < t \<or> (blocked e \<and> blockUntil e = Some b \<and> b \<noteq> 0 \<and> b \<le> t)) \<longrightarrow>
      (allowed (fst (checkLimit dev t ep lims)) \<longleftrightarrow>
         \<not> blocked (endpointEntryOf t ep lims) \<and>
         count (endpointEntryOf t ep lims) < limit_max (endpointLimit ep) \<and>
         \<not> (\<not> dev \<and> burstCount (globalEntryOf t ep lims) \<ge> burstMax \<and>
            ceilSeconds (lastBurstReset (globalEntryOf t ep lims) + burstWindow - t) \<le> 3)))"
proof (intro conjI impI)
  assume a: "lims k = Some e \<and> blocked e \<and> blockUntil e = Some b \<and>
    (\<forall>(now, ep) \<in> set calls.
        now < b \<and> now \<le> resetTime e \<and> (k = endpoint_key ep \<or> k = ''global''))"
  note kept = block_kept_over_calls[of lims k e b calls dev]
  from a kept show "length (fst (checkLimitSeq dev calls lims)) = length calls" by blast
  from a kept show "\<forall>r \<in> set (fst (checkLimitSeq dev calls lims)). \<not> allowed r" by blast
  from a kept show "\<exists>e'. snd (checkLimitSeq dev calls lims) k = Some e' \<and> blocked e' \<and>
            blockUntil e' = Some b \<and> resetTime e' = resetTime e" by blast
next
  assume a: "lims k = Some e \<and> resetTime e < t"
  note w = goc_window_end[of lims k e t]
  from a w show "\<not> blocked (fst (getOrCreateEntry t k lims))" by blast
  from a w show "blockUntil (fst (getOrCreateEntry t k lims)) = None" by blast
  from a w show "count (fst (getOrCreateEntry t k lims)) = 0" by blast
  from a w show "resetTime (fst (getOrCreateEntry t k lims)) = t + getWindow k" by blast
next
  assume a: "lims k = Some e \<and> blocked e \<and> blockUntil e = Some b \<and> b \<noteq> 0 \<and> b \<le> t \<and>
    t \<le> resetTime e"
  note c = goc_cooldown_end[of lims k e b t]
  from a c show "\<not> blocked (fst (getOrCreateEntry t k lims))" by blast
  from a c show "blockUntil (fst (getOrCreateEntry t k lims)) = None" by blast
  from a c show "count (fst (getOrCreateEntry t k lims)) = 0" by blast
  from a c show "burstCount (fst (getOrCreateEntry t k lims)) = 0" by blast
  from a c show "resetTime (fst (getOrCreateEntry t k lims)) = resetTime e" by blast
next
  assume a: "lims k = Some e \<and> blocked e \<and> (blockUntil e = None \<or> blockUntil e = Some 0) \<and>
    t \<le> resetTime e"
  note n = goc_no_cooldown[of lims k e t]
  from a n show "blocked (fst (getOrCreateEntry t k lims))" by blast
  from a n show "blockUntil (fst (getOrCreateEntry t k lims)) = blockUntil e" by blast
  from a n show "count (fst (getOrCreateEntry t k lims)) = count e" by blast
  from a n show "resetTime (fst (getOrCreateEntry t k lims)) = resetTime e" by blast
next
  show "endpointEntryOf t ep lims = fst (getOrCreateEntry t (endpoint_key ep) lims)"
    by (simp add: endpointEntryOf_def)
  show "globalEntryOf t ep lims = fst (getOrCreateEntry t ''global'' lims)"
    by (rule globalEntryOf_eq)
next
  assume a: "lims (endpoint_key ep) = Some e \<and>
    (resetTime e < t \<or> (blocked e \<and> blockUntil e = Some b \<and> b \<noteq> 0 \<and> b \<le> t))"
  then show "allowed (fst (checkLimit dev t ep lims)) \<longleftrightarrow>
         \<not> blocked (globalEntryOf t ep lims) \<and>
         count (globalEntryOf t ep lims) < limit_max globalLimit \<and>
         \<not> (\<not> dev \<and> burstCount (globalEntryOf t ep lims) \<ge> burstMax \<and>
            ceilSeconds (lastBurstReset (globalEntryOf t ep lims) + burstWindow - t) \<le> 3)"
    using block_over_endpoint[of lims ep e t b dev] by blast
next
  assume a: "lims ''global'' = Some e \<and>
    (resetTime e < t \<or> (blocked e \<and> blockUntil e = Some b \<and> b \<noteq> 0 \<and> b \<le> t))"
  then show "allowed (fst (checkLimit dev t ep lims)) \<longleftrightarrow>
         \<not> blocked (endpointEntryOf t ep lims) \<and>
         count (endpointEntryOf t ep lims) < limit_max (endpointLimit ep) \<and>
         \<not> (\<not> dev \<and> burstCount (globalEntryOf t ep lims) \<ge> burstMax \<and>
            ceilSeconds (lastBurstReset (globalEntryOf t ep lims) + burstWindow - t) \<le> 3)"
    using block_over_global[of lims e t b dev ep] by blast
qed


text \<open>
  The theorem at three tables. At \<open>quotaBlocked\<close> (blocked until 320000, window until
  300001) the calls at 290001 and 300001 are rejected; at 300002 the window has elapsed, the
  entry is returned unblocked and the call is accepted. At \<open>quotaBlockedEarly\<close> (blocked
  until 30001, window until 300001) the call at 30000 is rejected; at 30001 the entry is
  returned unblocked with count 0 and the call is accepted. A counter blocked with
  \<^verbatim>\<open>blockUntil\<close> 0 is still blocked at the last instant of its window.
\<close>

theorem block_rejects_while_window_and_cooldown_last_witness:
  "map allowed (fst (checkLimitSeq False
      [(290001, EpSpotifyAlbums), (300001, EpSpotifyAlbums)] quotaBlocked)) = [False, False] \<and>
   \<not> blocked (fst (getOrCreateEntry 300002 ''spotify-albums'' quotaBlocked)) \<and>
   allowed (fst (checkLimit False 300002 EpSpotifyAlbums quotaBlocked)) \<and>
   map allowed (fst (checkLimitSeq False [(30000, EpSpotifyAlbums)] quotaBlockedEarly)) =
     [False] \<and>
   \<not> blocked (fst (getOrCreateEntry 30001 ''spotify-albums'' quotaBlockedEarly)) \<and>
   count (fst (getOrCreateEntry 30001 ''spotify-albums'' quotaBlockedEarly)) = 0 \<and>
   allowed (fst (checkLimit False 30001 EpSpotifyAlbums quotaBlockedEarly)) \<and>
   blocked (fst (getOrCreateEntry 300001 ''spotify-albums''
      (Map.empty(''spotify-albums'' \<mapsto>
         \<lparr>count = 50, resetTime = 300001, blocked = True, blockUntil = Some 0,
          burstCount = 0, lastBurstReset = 290000\<rparr>))))"
proof -
  let ?calls = "[(290001 :: int, EpSpotifyAlbums), (300001, EpSpotifyAlbums)]"
  let ?e = "\<lparr>count = 50, resetTime = 300001, blocked = True, blockUntil = Some 320000,
             burstCount = 0, lastBurstReset = 290000\<rparr>"
  let ?early = "[(30000 :: int, EpSpotifyAlbums)]"
  let ?e2 = "\<lparr>count = 50, resetTime = 300001, blocked = True, blockUntil = Some 30001,
              burstCount = 0, lastBurstReset = 1\<rparr>"
  let ?e3 = "\<lparr>count = 50, resetTime = 300001, blocked = True, blockUntil = Some 0,
              burstCount = 0, lastBurstReset = 290000\<rparr>"
  let ?l3 = "Map.empty(''spotify-albums'' \<mapsto> ?e3)"
  note late = block_rejects_while_window_and_cooldown_last
    [where lims=quotaBlocked and k="''spotify-albums''" and e="?e" and b=320000 and
           calls="?calls" and dev=False and t=300002 and ep=EpSpotifyAlbums]
  note cool = block_rejects_while_window_and_cooldown_last
    [where lims=quotaBlockedEarly and k="''spotify-albums''" and e="?e2" and b=30001 and
           calls="?early" and dev=False and t=30001 and ep=EpSpotifyAlbums]
  note zero = block_rejects_while_window_and_cooldown_last
    [where lims="?l3" and k="''spotify-albums''" and e="?e3" and b=0 and
           calls="[]" and dev=False and t=300001 and ep=EpSpotifyAlbums]
  have h1: "quotaBlocked ''spotify-albums'' = Some ?e \<and> blocked ?e \<and>
            blockUntil ?e = Some 320000 \<and>
            (\<forall>(now, ep) \<in> set ?calls. now < 320000 \<and> now \<le> resetTime ?e \<and>
               (''spotify-albums'' = endpoint_key ep \<or> ''spotify-albums'' = ''global''))"
    by (simp add: quotaBlocked_def)
  have h2: "quotaBlocked ''spotify-albums'' = Some ?e \<and> resetTime ?e < 300002"
    by (simp add: quotaBlocked_def)
  have h3: "quotaBlocked (endpoint_key EpSpotifyAlbums) = Some ?e \<and>
            (resetTime ?e < 300002 \<or>
             (blocked ?e \<and> blockUntil ?e = Some 320000 \<and> (320000 :: int) \<noteq> 0 \<and>
              (320000 :: int) \<le> 300002))"
    by (simp add: quotaBlocked_def)
  have g1: "\<not> blocked (globalEntryOf 300002 EpSpotifyAlbums quotaBlocked) \<and>
            count (globalEntryOf 300002 EpSpotifyAlbums quotaBlocked) < limit_max globalLimit \<and>
            \<not> (\<not> False \<and> burstCount (globalEntryOf 300002 EpSpotifyAlbums quotaBlocked) \<ge> burstMax \<and>
               ceilSeconds (lastBurstReset (globalEntryOf 300002 EpSpotifyAlbums quotaBlocked)
                            + burstWindow - 300002) \<le> 3)"
    by (simp add: globalEntryOf_eq limiter_consts quotaBlocked_def)
  from late h1 have r1: "length (fst (checkLimitSeq False ?calls quotaBlocked)) = length ?calls \<and>
        (\<forall>r \<in> set (fst (checkLimitSeq False ?calls quotaBlocked)). \<not> allowed r)"
    by blast
  then have a1: "map allowed (fst (checkLimitSeq False ?calls quotaBlocked)) = [False, False]"
    by (cases "fst (checkLimitSeq False ?calls quotaBlocked)" rule: list.exhaust;
        auto simp: length_Suc_conv)
  from late h2 have a2: "\<not> blocked (fst (getOrCreateEntry 300002 ''spotify-albums'' quotaBlocked))"
    by blast
  from late h3 g1 have a3: "allowed (fst (checkLimit False 300002 EpSpotifyAlbums quotaBlocked))"
    by blast
  have k1: "quotaBlockedEarly ''spotify-albums'' = Some ?e2 \<and> blocked ?e2 \<and>
            blockUntil ?e2 = Some 30001 \<and>
            (\<forall>(now, ep) \<in> set ?early. now < 30001 \<and> now \<le> resetTime ?e2 \<and>
               (''spotify-albums'' = endpoint_key ep \<or> ''spotify-albums'' = ''global''))"
    by (simp add: quotaBlockedEarly_def)
  have k2: "quotaBlockedEarly ''spotify-albums'' = Some ?e2 \<and> blocked ?e2 \<and>
            blockUntil ?e2 = Some 30001 \<and> (30001 :: int) \<noteq> 0 \<and> (30001 :: int) \<le> 30001 \<and>
            30001 \<le> resetTime ?e2"
    by (simp add: quotaBlockedEarly_def)
  have k3: "quotaBlockedEarly (endpoint_key EpSpotifyAlbums) = Some ?e2 \<and>
            (resetTime ?e2 < 30001 \<or>
             (blocked ?e2 \<and> blockUntil ?e2 = Some 30001 \<and> (30001 :: int) \<noteq> 0 \<and>
              (30001 :: int) \<le> 30001))"
    by (simp add: quotaBlockedEarly_def)
  have g2: "\<not> blocked (globalEntryOf 30001 EpSpotifyAlbums quotaBlockedEarly) \<and>
            count (globalEntryOf 30001 EpSpotifyAlbums quotaBlockedEarly) < limit_max globalLimit \<and>
            \<not> (\<not> False \<and> burstCount (globalEntryOf 30001 EpSpotifyAlbums quotaBlockedEarly) \<ge> burstMax \<and>
               ceilSeconds (lastBurstReset (globalEntryOf 30001 EpSpotifyAlbums quotaBlockedEarly)
                            + burstWindow - 30001) \<le> 3)"
    by (simp add: globalEntryOf_eq limiter_consts quotaBlockedEarly_def)
  from cool k1 have r2: "length (fst (checkLimitSeq False ?early quotaBlockedEarly)) = length ?early \<and>
        (\<forall>r \<in> set (fst (checkLimitSeq False ?early quotaBlockedEarly)). \<not> allowed r)"
    by blast
  then have b1: "map allowed (fst (checkLimitSeq False ?early quotaBlockedEarly)) = [False]"
    by (cases "fst (checkLimitSeq False ?early quotaBlockedEarly)" rule: list.exhaust;
        auto simp: length_Suc_conv)
  from cool k2 have b2: "\<not> blocked (fst (getOrCreateEntry 30001 ''spotify-albums'' quotaBlockedEarly)) \<and>
      count (fst (getOrCreateEntry 30001 ''spotify-albums'' quotaBlockedEarly)) = 0"
    by blast
  from cool k3 g2 have b3: "allowed (fst (checkLimit False 30001 EpSpotifyAlbums quotaBlockedEarly))"
    by blast
  have z1: "?l3 ''spotify-albums'' = Some ?e3 \<and> blocked ?e3 \<and>
            (blockUntil ?e3 = None \<or> blockUntil ?e3 = Some 0) \<and> 300001 \<le> resetTime ?e3"
    by simp
  from zero z1 have c1: "blocked (fst (getOrCreateEntry 300001 ''spotify-albums'' ?l3))"
    by blast
  from a1 a2 a3 b1 b2 b3 c1 show ?thesis by blast
qed

text \<open>
  Claim C2 as stated fails. The 51st \<^verbatim>\<open>spotify-albums\<close> call at time 290000 is rejected
  and blocks the endpoint until 320000. The window of that counter ends at 300001, and
  \<^verbatim>\<open>getOrCreateEntry\<close> then resets the counter and clears \<^verbatim>\<open>blocked\<close> and \<^verbatim>\<open>blockUntil\<close>: the
  call at 300002, 18 seconds before \<^verbatim>\<open>blockUntil\<close>, is accepted.
\<close>

theorem window_reset_lifts_block_counterexample:
  "\<not> allowed (fst (checkLimit False 290000 EpSpotifyAlbums quotaUsed)) \<and>
   snd (checkLimit False 290000 EpSpotifyAlbums quotaUsed) = quotaBlocked \<and>
   quotaBlocked ''spotify-albums'' =
     Some \<lparr>count = 50, resetTime = 300001, blocked = True, blockUntil = Some 320000,
           burstCount = 0, lastBurstReset = 290000\<rparr> \<and>
   (300002 :: int) < 320000 \<and>
   allowed (fst (checkLimit False 300002 EpSpotifyAlbums quotaBlocked))"
proof -
  have a: "\<not> allowed (fst (checkLimit False 290000 EpSpotifyAlbums quotaUsed))"
    by (simp add: checkLimit_def limiter_consts quotaUsed_def)
  have b: "allowed (fst (checkLimit False 300002 EpSpotifyAlbums quotaBlocked))"
    by (simp add: checkLimit_def limiter_consts quotaBlocked_def)
  show ?thesis using a b quotaBlocked_reached by (simp add: quotaBlocked_def)
qed

subsection \<open>Rejected calls\<close>

text \<open>
  Claim C10. A \<^verbatim>\<open>checkLimit\<close> call that returns \<^verbatim>\<open>allowed = false\<close> increments no counter:
  every entry of the table after the call has the \<^verbatim>\<open>count\<close> and the \<^verbatim>\<open>burstCount\<close> it had
  before the call, or 0 (an entry created by the call, or reset by it).
\<close>

theorem rejected_call_consumes_no_quota:
  assumes "\<not> allowed (fst (checkLimit dev now ep lims))"
    and "snd (checkLimit dev now ep lims) k = Some e'"
  shows "case lims k of
           None \<Rightarrow> count e' = 0 \<and> burstCount e' = 0
         | Some e \<Rightarrow> (count e' = count e \<or> count e' = 0) \<and>
                     (burstCount e' = burstCount e \<or> burstCount e' = 0)"
proof -
  note st = checkLimit_rejected_state[OF assms]
  consider "k = endpoint_key ep" | "k = ''global''" | "k \<noteq> endpoint_key ep" "k \<noteq> ''global''"
    by blast
  then have "count e' = count (fst (getOrCreateEntry now k lims)) \<and>
             burstCount e' = burstCount (fst (getOrCreateEntry now k lims)) \<or>
             lims k = Some e'"
  proof cases
    case 1
    with st show ?thesis by (simp add: endpointEntryOf_def)
  next
    case 2
    with st show ?thesis by (simp add: globalEntryOf_eq)
  next
    case 3
    with st show ?thesis by simp
  qed
  then show ?thesis
    using entry_counts_not_raised[where lims=lims and k=k and now=now]
    by (cases "lims k") auto
qed

text \<open>
  The theorem at the table \<open>quotaUsed\<close>: the rejected 51st call leaves the count at 50.
\<close>

theorem rejected_call_consumes_no_quota_witness:
  "\<not> allowed (fst (checkLimit False 290000 EpSpotifyAlbums quotaUsed)) \<and>
   snd (checkLimit False 290000 EpSpotifyAlbums quotaUsed) ''spotify-albums'' =
     Some \<lparr>count = 50, resetTime = 300001, blocked = True, blockUntil = Some 320000,
           burstCount = 0, lastBurstReset = 290000\<rparr> \<and>
   quotaUsed ''spotify-albums'' =
     Some \<lparr>count = 50, resetTime = 300001, blocked = False, blockUntil = None,
           burstCount = 0, lastBurstReset = 290000\<rparr>"
proof -
  have a: "\<not> allowed (fst (checkLimit False 290000 EpSpotifyAlbums quotaUsed))"
    by (simp add: checkLimit_def limiter_consts quotaUsed_def)
  have b: "snd (checkLimit False 290000 EpSpotifyAlbums quotaUsed) ''spotify-albums'' =
     Some \<lparr>count = 50, resetTime = 300001, blocked = True, blockUntil = Some 320000,
           burstCount = 0, lastBurstReset = 290000\<rparr>"
    by (simp add: quotaBlocked_reached quotaBlocked_def)
  from rejected_call_consumes_no_quota[OF a b] a b show ?thesis
    by (simp add: quotaUsed_def)
qed

subsection \<open>The check that does not increment\<close>

text \<open>
  Claim C7, as the code has it. \<^verbatim>\<open>checkLimitWithoutIncrement\<close> rejects exactly when the
  endpoint counter or the global counter is blocked after \<^verbatim>\<open>getOrCreateEntry\<close>.
  \<^verbatim>\<open>checkLimit\<close> rejects in these states too, and in three more: the endpoint count has
  reached its maximum, the global count has reached its maximum, or the burst throttle
  applies. \<^verbatim>\<open>checkLimitWithoutIncrement\<close> never increments a \<^verbatim>\<open>count\<close> or a \<^verbatim>\<open>burstCount\<close>.
\<close>

theorem checkLimitWithoutIncrement_checks_blocks_only:
  "(\<not> allowed (fst (checkLimitWithoutIncrement now ep lims)) \<longleftrightarrow>
      blocked (endpointEntryOf now ep lims) \<or> blocked (globalEntryOf now ep lims)) \<and>
   (\<not> allowed (fst (checkLimit dev now ep lims)) \<longleftrightarrow>
      \<not> allowed (fst (checkLimitWithoutIncrement now ep lims)) \<or>
      count (endpointEntryOf now ep lims) \<ge> limit_max (endpointLimit ep) \<or>
      count (globalEntryOf now ep lims) \<ge> limit_max globalLimit \<or>
      (\<not> dev \<and> burstCount (globalEntryOf now ep lims) \<ge> burstMax \<and>
       ceilSeconds (lastBurstReset (globalEntryOf now ep lims) + burstWindow - now) \<le> 3)) \<and>
   (\<forall>k e'. snd (checkLimitWithoutIncrement now ep lims) k = Some e' \<longrightarrow>
      (case lims k of
         None \<Rightarrow> count e' = 0 \<and> burstCount e' = 0
       | Some e \<Rightarrow> (count e' = count e \<or> count e' = 0) \<and>
                   (burstCount e' = burstCount e \<or> burstCount e' = 0)))"
proof (intro conjI allI impI)
  show "\<not> allowed (fst (checkLimitWithoutIncrement now ep lims)) \<longleftrightarrow>
      blocked (endpointEntryOf now ep lims) \<or> blocked (globalEntryOf now ep lims)"
    by (simp add: checkLimitWithoutIncrement_allowed_iff)
next
  show "\<not> allowed (fst (checkLimit dev now ep lims)) \<longleftrightarrow>
      \<not> allowed (fst (checkLimitWithoutIncrement now ep lims)) \<or>
      count (endpointEntryOf now ep lims) \<ge> limit_max (endpointLimit ep) \<or>
      count (globalEntryOf now ep lims) \<ge> limit_max globalLimit \<or>
      (\<not> dev \<and> burstCount (globalEntryOf now ep lims) \<ge> burstMax \<and>
       ceilSeconds (lastBurstReset (globalEntryOf now ep lims) + burstWindow - now) \<le> 3)"
    unfolding checkLimitWithoutIncrement_allowed_iff checkLimit_allowed_iff
    by (simp only: not_less de_Morgan_conj not_not) blast
next
  fix k e'
  assume e': "snd (checkLimitWithoutIncrement now ep lims) k = Some e'"
  have "e' = fst (getOrCreateEntry now k lims) \<or> lims k = Some e'"
    using e' endpoint_key_not_global[of ep]
    by (auto simp add: checkLimitWithoutIncrement_state endpointEntryOf_def globalEntryOf_eq
        split: if_splits)
  then show "case lims k of
         None \<Rightarrow> count e' = 0 \<and> burstCount e' = 0
       | Some e \<Rightarrow> (count e' = count e \<or> count e' = 0) \<and>
                   (burstCount e' = burstCount e \<or> burstCount e' = 0)"
    using entry_counts_not_raised[where lims=lims and k=k and now=now]
    by (cases "lims k") auto
qed

text \<open>
  The theorem at the table \<open>quotaBlocked\<close>: both checks reject, and the count stays at 50.
\<close>

theorem checkLimitWithoutIncrement_checks_blocks_only_witness:
  "\<not> allowed (fst (checkLimitWithoutIncrement 290001 EpSpotifyAlbums quotaBlocked)) \<and>
   \<not> allowed (fst (checkLimit False 290001 EpSpotifyAlbums quotaBlocked)) \<and>
   (\<exists>e'. snd (checkLimitWithoutIncrement 290001 EpSpotifyAlbums quotaBlocked) ''spotify-albums''
            = Some e' \<and> count e' = 50 \<and> burstCount e' = 0)"
proof -
  have b: "blocked (endpointEntryOf 290001 EpSpotifyAlbums quotaBlocked)"
    by (simp add: endpointEntryOf_def limiter_consts quotaBlocked_def)
  have e: "snd (checkLimitWithoutIncrement 290001 EpSpotifyAlbums quotaBlocked) ''spotify-albums''
      = Some \<lparr>count = 50, resetTime = 300001, blocked = True, blockUntil = Some 320000,
           burstCount = 0, lastBurstReset = 290000\<rparr>"
    by (simp add: checkLimitWithoutIncrement_state endpointEntryOf_def limiter_consts
        quotaBlocked_def)
  from checkLimitWithoutIncrement_checks_blocks_only
         [of 290001 EpSpotifyAlbums quotaBlocked False] b e
  show ?thesis by simp
qed

text \<open>
  Claim C7 as stated fails. In the table \<open>quotaUsed\<close> the endpoint has used its 50 requests
  and is not blocked: \<^verbatim>\<open>checkLimit\<close> rejects, \<^verbatim>\<open>checkLimitWithoutIncrement\<close> accepts.
\<close>

theorem checkLimitWithoutIncrement_accepts_at_limit_counterexample:
  "\<not> allowed (fst (checkLimit False 290000 EpSpotifyAlbums quotaUsed)) \<and>
   allowed (fst (checkLimitWithoutIncrement 290000 EpSpotifyAlbums quotaUsed))"
  by (simp add: checkLimit_def checkLimitWithoutIncrement_def limiter_consts quotaUsed_def)

section \<open>Properties of the artist mapping cache\<close>

subsection \<open>Reads and the TTL\<close>

lemma find_filter_implied:
  "(\<And>x. P x \<Longrightarrow> Q x) \<Longrightarrow> List.find P (filter Q xs) = List.find P xs"
  by (induction xs) auto

lemma map_snd_unexpired:
  "map snd (unexpired now ms) = filter (\<lambda>m. now - lastUpdated m \<le> TTL) (map snd ms)"
  by (induction ms) (auto simp: unexpired_def)

lemma getByUnifiedId_Some:
  assumes "getByUnifiedId now uid ms = (Some m, ms')"
  shows "now - lastUpdated m \<le> TTL \<and> map_of ms uid = Some m \<and> ms' = ms"
  using assms by (auto simp: getByUnifiedId_def split: option.splits if_splits)

lemma getByUnifiedId_expired:
  assumes "map_of ms uid = Some m" and "now - lastUpdated m > TTL"
  shows "getByUnifiedId now uid ms = (None, AList.delete uid ms) \<and>
         map_of (AList.delete uid ms) uid = None"
  using assms by (simp add: getByUnifiedId_def delete_conv')

lemma getBySpotifyId_Some:
  assumes "fst (getBySpotifyId now sid ms) = Some m"
  shows "now - lastUpdated m \<le> TTL \<and> spotifyId m = Some sid \<and> m \<in> snd ` set ms"
  using assms by (auto simp: getBySpotifyId_def find_Some_iff)

lemma getByLastFmName_Some:
  assumes "fst (getByLastFmName toLowerCase now name ms) = Some m"
  shows "now - lastUpdated m \<le> TTL \<and>
         map_option toLowerCase (lastFmName m) = Some (toLowerCase name) \<and> m \<in> snd ` set ms"
  using assms by (auto simp: getByLastFmName_def Let_def find_Some_iff)

lemma secondary_reads_skip_expired:
  "fst (getBySpotifyId now sid ms) = fst (getBySpotifyId now sid (unexpired now ms))"
  "fst (getByLastFmName toLowerCase now name ms) = fst (getByLastFmName toLowerCase now name (unexpired now ms))"
proof -
  show "fst (getBySpotifyId now sid ms) = fst (getBySpotifyId now sid (unexpired now ms))"
    unfolding getBySpotifyId_def fst_conv map_snd_unexpired
    by (rule find_filter_implied[symmetric]) simp
  show "fst (getByLastFmName toLowerCase now name ms) = fst (getByLastFmName toLowerCase now name (unexpired now ms))"
    unfolding getByLastFmName_def Let_def fst_conv map_snd_unexpired
    by (rule find_filter_implied[symmetric]) simp
qed

lemma setMapping_lookup:
  "\<exists>m. map_of (setMapping T d ms) (data_unifiedId d) = Some m \<and>
       unifiedId m = data_unifiedId d \<and> lastUpdated m = T \<and>
       spotifyId m = orElse (data_spotifyId d) (Option.bind (map_of ms (data_unifiedId d)) spotifyId) \<and>
       spotifyName m = orElse (data_spotifyName d) (Option.bind (map_of ms (data_unifiedId d)) spotifyName) \<and>
       lastFmName m = orElse (data_lastFmName d) (Option.bind (map_of ms (data_unifiedId d)) lastFmName)"
  by (simp add: setMapping_def Let_def update_conv')

lemma written_mapping_ttl:
  "(\<exists>m. getByUnifiedId (T + TTL - 1000) (data_unifiedId d) (setMapping T d ms) =
           (Some m, setMapping T d ms) \<and> lastUpdated m = T \<and> unifiedId m = data_unifiedId d) \<and>
   fst (getByUnifiedId (T + TTL + 1000) (data_unifiedId d) (setMapping T d ms)) = None \<and>
   map_of (snd (getByUnifiedId (T + TTL + 1000) (data_unifiedId d) (setMapping T d ms)))
     (data_unifiedId d) = None"
proof -
  obtain m where m: "map_of (setMapping T d ms) (data_unifiedId d) = Some m"
    "unifiedId m = data_unifiedId d" "lastUpdated m = T"
    using setMapping_lookup[of T d ms] by blast
  then show ?thesis
    by (simp add: getByUnifiedId_def delete_conv')
qed

text \<open>
  Claim C8, as the code has it. No read returns a record older than \<open>TTL\<close>: what
  \<^verbatim>\<open>getByUnifiedId\<close>, \<^verbatim>\<open>getBySpotifyId\<close> and \<^verbatim>\<open>getByLastFmName\<close> return is a record of the
  table whose age is at most \<open>TTL\<close>. An expired record is treated as not found:
  \<^verbatim>\<open>getByUnifiedId\<close> returns \<^verbatim>\<open>null\<close> for it and deletes it from the table; the two
  secondary-key reads return what they return on the table without its expired records,
  and leave the table as it is. A mapping written at time \<open>T\<close> is returned by
  \<^verbatim>\<open>getByUnifiedId\<close> at \<open>T + TTL - 1s\<close>, and is absent (and deleted) at \<open>T + TTL + 1s\<close>.
\<close>

theorem mapping_reads_respect_TTL:
  "(\<forall>m ms'. getByUnifiedId now uid ms = (Some m, ms') \<longrightarrow>
       now - lastUpdated m \<le> TTL \<and> map_of ms uid = Some m \<and> ms' = ms) \<and>
   (\<forall>m. fst (getBySpotifyId now sid ms) = Some m \<longrightarrow>
       now - lastUpdated m \<le> TTL \<and> spotifyId m = Some sid \<and> m \<in> snd ` set ms) \<and>
   (\<forall>m. fst (getByLastFmName toLowerCase now name ms) = Some m \<longrightarrow>
       now - lastUpdated m \<le> TTL \<and> m \<in> snd ` set ms) \<and>
   (\<forall>m. map_of ms uid = Some m \<and> now - lastUpdated m > TTL \<longrightarrow>
       getByUnifiedId now uid ms = (None, AList.delete uid ms) \<and>
       map_of (AList.delete uid ms) uid = None) \<and>
   fst (getBySpotifyId now sid ms) = fst (getBySpotifyId now sid (unexpired now ms)) \<and>
   fst (getByLastFmName toLowerCase now name ms) = fst (getByLastFmName toLowerCase now name (unexpired now ms)) \<and>
   snd (getBySpotifyId now sid ms) = ms \<and>
   snd (getByLastFmName toLowerCase now name ms) = ms \<and>
   (\<exists>m. getByUnifiedId (T + TTL - 1000) (data_unifiedId d) (setMapping T d ms) =
           (Some m, setMapping T d ms) \<and> lastUpdated m = T \<and> unifiedId m = data_unifiedId d) \<and>
   fst (getByUnifiedId (T + TTL + 1000) (data_unifiedId d) (setMapping T d ms)) = None \<and>
   map_of (snd (getByUnifiedId (T + TTL + 1000) (data_unifiedId d) (setMapping T d ms)))
     (data_unifiedId d) = None"
proof -
  have a: "\<forall>m ms'. getByUnifiedId now uid ms = (Some m, ms') \<longrightarrow>
       now - lastUpdated m \<le> TTL \<and> map_of ms uid = Some m \<and> ms' = ms"
    using getByUnifiedId_Some by blast
  have b: "\<forall>m. fst (getBySpotifyId now sid ms) = Some m \<longrightarrow>
       now - lastUpdated m \<le> TTL \<and> spotifyId m = Some sid \<and> m \<in> snd ` set ms"
    using getBySpotifyId_Some by blast
  have c: "\<forall>m. fst (getByLastFmName toLowerCase now name ms) = Some m \<longrightarrow>
       now - lastUpdated m \<le> TTL \<and> m \<in> snd ` set ms"
    using getByLastFmName_Some by blast
  have e: "\<forall>m. map_of ms uid = Some m \<and> now - lastUpdated m > TTL \<longrightarrow>
       getByUnifiedId now uid ms = (None, AList.delete uid ms) \<and>
       map_of (AList.delete uid ms) uid = None"
    using getByUnifiedId_expired by blast
  have f: "snd (getBySpotifyId now sid ms) = ms" "snd (getByLastFmName toLowerCase now name ms) = ms"
    by (simp_all add: getBySpotifyId_def getByLastFmName_def Let_def)
  show ?thesis
    using a b c e f secondary_reads_skip_expired written_mapping_ttl[of T d ms]
    by blast
qed

lemma asciiLowerCase_examples:
  "asciiLowerCase ''BTS'' = ''bts''" "asciiLowerCase ''bts'' = ''bts''"
  by code_simp+

text \<open>
  The theorem at a table with one record written at time 0: one second before \<open>TTL\<close> the
  record is read by its unified id, by its Spotify id and by its Last.fm name in lower
  case; one second after \<open>TTL\<close> the read by unified id finds nothing and empties the table.
\<close>

theorem mapping_reads_respect_TTL_witness:
  "getByUnifiedId (TTL - 1000) ''bts'' [(''bts'', btsMapping)] =
     (Some btsMapping, [(''bts'', btsMapping)]) \<and>
   (TTL - 1000) - lastUpdated btsMapping \<le> TTL \<and>
   fst (getBySpotifyId (TTL - 1000) ''3Nrfpe0tUJi4K4DXYWgMUX'' [(''bts'', btsMapping)]) =
     Some btsMapping \<and>
   fst (getByLastFmName asciiLowerCase (TTL - 1000) ''bts'' [(''bts'', btsMapping)]) = Some btsMapping \<and>
   TTL + 1000 - lastUpdated btsMapping > TTL \<and>
   getByUnifiedId (TTL + 1000) ''bts'' [(''bts'', btsMapping)] = (None, [])"
proof -
  let ?ms = "[(''bts'', btsMapping)]"
  let ?d = "\<lparr>data_unifiedId = ''bts'', data_spotifyId = None, data_spotifyName = None,
             data_lastFmName = None\<rparr>"
  have r1: "getByUnifiedId (TTL - 1000) ''bts'' ?ms = (Some btsMapping, ?ms)"
    by (simp add: getByUnifiedId_def btsMapping_def)
  have r2: "fst (getBySpotifyId (TTL - 1000) ''3Nrfpe0tUJi4K4DXYWgMUX'' ?ms) = Some btsMapping"
    by (simp add: getBySpotifyId_def btsMapping_def)
  have r3: "map_of ?ms ''bts'' = Some btsMapping \<and> TTL + 1000 - lastUpdated btsMapping > TTL"
    by (simp add: btsMapping_def)
  have r4: "fst (getByLastFmName asciiLowerCase (TTL - 1000) ''bts'' ?ms) = Some btsMapping"
    by (simp add: getByLastFmName_def Let_def btsMapping_def asciiLowerCase_examples)
  note early = mapping_reads_respect_TTL
         [where now="TTL - 1000" and uid="''bts''" and ms="?ms" and
                sid="''3Nrfpe0tUJi4K4DXYWgMUX''" and toLowerCase=asciiLowerCase and
                name="''bts''" and T=0 and d="?d"]
  from early r1 have a: "(TTL - 1000) - lastUpdated btsMapping \<le> TTL" by blast
  from early r2 have a2: "spotifyId btsMapping = Some ''3Nrfpe0tUJi4K4DXYWgMUX''" by blast
  from early r4 have a3: "btsMapping \<in> snd ` set ?ms" by blast
  from mapping_reads_respect_TTL
         [where now="TTL + 1000" and uid="''bts''" and ms="?ms" and
                sid="''3Nrfpe0tUJi4K4DXYWgMUX''" and toLowerCase=asciiLowerCase and
                name="''bts''" and T=0 and d="?d"] r3
  have b: "getByUnifiedId (TTL + 1000) ''bts'' ?ms = (None, AList.delete ''bts'' ?ms)" by blast
  from r1 r2 r3 r4 a b show ?thesis by (simp add: AList.delete_eq)
qed

text \<open>
  Claim C8 as stated fails for the reads by secondary key: one second after \<open>TTL\<close>,
  \<^verbatim>\<open>getBySpotifyId\<close> and \<^verbatim>\<open>getByLastFmName\<close> find the expired record, return \<^verbatim>\<open>null\<close>, and
  the record is still in the table.
\<close>

theorem secondary_read_keeps_expired_record_counterexample:
  "TTL + 1000 - lastUpdated btsMapping > TTL \<and>
   fst (getBySpotifyId (TTL + 1000) ''3Nrfpe0tUJi4K4DXYWgMUX'' [(''bts'', btsMapping)]) = None \<and>
   map_of (snd (getBySpotifyId (TTL + 1000) ''3Nrfpe0tUJi4K4DXYWgMUX'' [(''bts'', btsMapping)]))
     ''bts'' = Some btsMapping \<and>
   fst (getByLastFmName asciiLowerCase (TTL + 1000) ''bts'' [(''bts'', btsMapping)]) = None \<and>
   map_of (snd (getByLastFmName asciiLowerCase (TTL + 1000) ''bts'' [(''bts'', btsMapping)]))
     ''bts'' = Some btsMapping"
  by (simp add: getBySpotifyId_def getByLastFmName_def btsMapping_def)

subsection \<open>Writes\<close>

lemma orElse_supplied: "v \<noteq> [] \<Longrightarrow> orElse (Some v) x = Some v"
  by (simp add: orElse_def)

lemma orElse_omitted: "a = None \<or> a = Some [] \<Longrightarrow> orElse a x = x"
  by (auto simp: orElse_def)

lemma one_record_per_key:
  "distinct (map fst xs) \<Longrightarrow> k \<in> fst ` set xs \<Longrightarrow> length (filter (\<lambda>p. fst p = k) xs) = 1"
proof (induction xs)
  case Nil
  then show ?case by simp
next
  case (Cons x xs)
  show ?case
  proof (cases "fst x = k")
    case True
    from Cons.prems(1) have "fst x \<notin> fst ` set xs" by simp
    then have "\<forall>p \<in> set xs. fst p \<noteq> k" unfolding True by (metis imageI)
    then have "filter (\<lambda>p. fst p = k) xs = []" by (simp add: filter_empty_conv)
    with True show ?thesis by simp
  next
    case False
    with Cons show ?thesis by auto
  qed
qed

text \<open>
  Claim C9. \<^verbatim>\<open>setMapping\<close> leaves one record for the unified id of its argument, with
  \<^verbatim>\<open>lastUpdated\<close> set to the time of the call; a field the argument supplies non-empty is
  stored; a field the argument omits or leaves empty keeps the value of the record that was
  there; the records of other ids are untouched; a table with one record per id stays so.
  Writing \<open>{unifiedId: x, spotifyId: a}\<close> and then \<open>{unifiedId: x, lastFmName: b}\<close> to the
  empty table yields the single record for \<open>x\<close> with both fields.
\<close>

theorem setMapping_merges_fields:
  "(\<exists>m. map_of (setMapping now d ms) (data_unifiedId d) = Some m \<and>
        unifiedId m = data_unifiedId d \<and> lastUpdated m = now \<and>
        (\<forall>v. data_spotifyId d = Some v \<and> v \<noteq> [] \<longrightarrow> spotifyId m = Some v) \<and>
        (\<forall>v. data_spotifyName d = Some v \<and> v \<noteq> [] \<longrightarrow> spotifyName m = Some v) \<and>
        (\<forall>v. data_lastFmName d = Some v \<and> v \<noteq> [] \<longrightarrow> lastFmName m = Some v) \<and>
        (\<forall>old. map_of ms (data_unifiedId d) = Some old \<longrightarrow>
           (data_spotifyId d = None \<or> data_spotifyId d = Some [] \<longrightarrow>
              spotifyId m = spotifyId old) \<and>
           (data_spotifyName d = None \<or> data_spotifyName d = Some [] \<longrightarrow>
              spotifyName m = spotifyName old) \<and>
           (data_lastFmName d = None \<or> data_lastFmName d = Some [] \<longrightarrow>
              lastFmName m = lastFmName old))) \<and>
   (\<forall>uid. uid \<noteq> data_unifiedId d \<longrightarrow> map_of (setMapping now d ms) uid = map_of ms uid) \<and>
   (distinct (map fst ms) \<longrightarrow>
      distinct (map fst (setMapping now d ms)) \<and>
      length (filter (\<lambda>p. fst p = data_unifiedId d) (setMapping now d ms)) = 1) \<and>
   (a \<noteq> [] \<and> b \<noteq> [] \<longrightarrow>
      setMapping t2 \<lparr>data_unifiedId = x, data_spotifyId = None, data_spotifyName = None,
                     data_lastFmName = Some b\<rparr>
        (setMapping t1 \<lparr>data_unifiedId = x, data_spotifyId = Some a, data_spotifyName = None,
                        data_lastFmName = None\<rparr> [])
      = [(x, \<lparr>spotifyId = Some a, spotifyName = None, lastFmName = Some b, unifiedId = x,
              lastUpdated = t2\<rparr>)])"
proof (intro conjI)
  obtain m where m: "map_of (setMapping now d ms) (data_unifiedId d) = Some m"
    "unifiedId m = data_unifiedId d" "lastUpdated m = now"
    "spotifyId m = orElse (data_spotifyId d) (Option.bind (map_of ms (data_unifiedId d)) spotifyId)"
    "spotifyName m = orElse (data_spotifyName d) (Option.bind (map_of ms (data_unifiedId d)) spotifyName)"
    "lastFmName m = orElse (data_lastFmName d) (Option.bind (map_of ms (data_unifiedId d)) lastFmName)"
    using setMapping_lookup[of now d ms] by blast
  show "\<exists>m. map_of (setMapping now d ms) (data_unifiedId d) = Some m \<and>
        unifiedId m = data_unifiedId d \<and> lastUpdated m = now \<and>
        (\<forall>v. data_spotifyId d = Some v \<and> v \<noteq> [] \<longrightarrow> spotifyId m = Some v) \<and>
        (\<forall>v. data_spotifyName d = Some v \<and> v \<noteq> [] \<longrightarrow> spotifyName m = Some v) \<and>
        (\<forall>v. data_lastFmName d = Some v \<and> v \<noteq> [] \<longrightarrow> lastFmName m = Some v) \<and>
        (\<forall>old. map_of ms (data_unifiedId d) = Some old \<longrightarrow>
           (data_spotifyId d = None \<or> data_spotifyId d = Some [] \<longrightarrow>
              spotifyId m = spotifyId old) \<and>
           (data_spotifyName d = None \<or> data_spotifyName d = Some [] \<longrightarrow>
              spotifyName m = spotifyName old) \<and>
           (data_lastFmName d = None \<or> data_lastFmName d = Some [] \<longrightarrow>
              lastFmName m = lastFmName old))"
    by (rule exI[of _ m]) (auto simp: m orElse_supplied orElse_omitted)
next
  show "\<forall>uid. uid \<noteq> data_unifiedId d \<longrightarrow> map_of (setMapping now d ms) uid = map_of ms uid"
    by (simp add: setMapping_def Let_def update_conv')
next
  show "distinct (map fst ms) \<longrightarrow>
      distinct (map fst (setMapping now d ms)) \<and>
      length (filter (\<lambda>p. fst p = data_unifiedId d) (setMapping now d ms)) = 1"
  proof
    assume dist: "distinct (map fst ms)"
    then have d': "distinct (map fst (setMapping now d ms))"
      by (simp add: setMapping_def Let_def distinct_update)
    have "data_unifiedId d \<in> fst ` set (setMapping now d ms)"
      by (simp add: setMapping_def Let_def dom_update)
    with d' show "distinct (map fst (setMapping now d ms)) \<and>
      length (filter (\<lambda>p. fst p = data_unifiedId d) (setMapping now d ms)) = 1"
      by (simp add: one_record_per_key)
  qed
next
  show "a \<noteq> [] \<and> b \<noteq> [] \<longrightarrow>
      setMapping t2 \<lparr>data_unifiedId = x, data_spotifyId = None, data_spotifyName = None,
                     data_lastFmName = Some b\<rparr>
        (setMapping t1 \<lparr>data_unifiedId = x, data_spotifyId = Some a, data_spotifyName = None,
                        data_lastFmName = None\<rparr> [])
      = [(x, \<lparr>spotifyId = Some a, spotifyName = None, lastFmName = Some b, unifiedId = x,
              lastUpdated = t2\<rparr>)]"
    by (simp add: setMapping_def Let_def orElse_def)
qed

text \<open>
  The theorem at \<open>x = "x"\<close>, \<open>a = "1"\<close>, \<open>b = "2"\<close>: the second write keeps the Spotify id of
  the first.
\<close>

theorem setMapping_merges_fields_witness:
  "(\<exists>m. map_of (setMapping 20 \<lparr>data_unifiedId = ''x'', data_spotifyId = None,
                     data_spotifyName = None, data_lastFmName = Some ''2''\<rparr>
           (setMapping 10 \<lparr>data_unifiedId = ''x'', data_spotifyId = Some ''1'',
                     data_spotifyName = None, data_lastFmName = None\<rparr> [])) ''x'' = Some m \<and>
        spotifyId m = Some ''1'' \<and> lastFmName m = Some ''2'' \<and> lastUpdated m = 20) \<and>
   setMapping 20 \<lparr>data_unifiedId = ''x'', data_spotifyId = None, data_spotifyName = None,
                  data_lastFmName = Some ''2''\<rparr>
     (setMapping 10 \<lparr>data_unifiedId = ''x'', data_spotifyId = Some ''1'', data_spotifyName = None,
                     data_lastFmName = None\<rparr> [])
   = [(''x'', \<lparr>spotifyId = Some ''1'', spotifyName = None, lastFmName = Some ''2'',
               unifiedId = ''x'', lastUpdated = 20\<rparr>)]"
proof -
  let ?dA = "\<lparr>data_unifiedId = ''x'', data_spotifyId = Some ''1'', data_spotifyName = None,
              data_lastFmName = None\<rparr>"
  let ?dB = "\<lparr>data_unifiedId = ''x'', data_spotifyId = None, data_spotifyName = None,
              data_lastFmName = Some ''2''\<rparr>"
  let ?old = "\<lparr>spotifyId = Some ''1'', spotifyName = None, lastFmName = None,
               unifiedId = ''x'', lastUpdated = 10\<rparr>"
  have old: "map_of (setMapping 10 ?dA []) (data_unifiedId ?dB) = Some ?old"
    by (simp add: setMapping_def orElse_def)
  note inst = setMapping_merges_fields[of 20 ?dB "setMapping 10 ?dA []" "''1''" "''2''" 20 "''x''" 10]
  from inst obtain m where m:
    "map_of (setMapping 20 ?dB (setMapping 10 ?dA [])) (data_unifiedId ?dB) = Some m"
    "lastUpdated m = 20"
    "\<forall>v. data_lastFmName ?dB = Some v \<and> v \<noteq> [] \<longrightarrow> lastFmName m = Some v"
    "\<forall>old. map_of (setMapping 10 ?dA []) (data_unifiedId ?dB) = Some old \<longrightarrow>
       (data_spotifyId ?dB = None \<or> data_spotifyId ?dB = Some [] \<longrightarrow>
          spotifyId m = spotifyId old)"
    by blast
  from m(3) have l: "lastFmName m = Some ''2''" by simp
  from m(4) old have sp: "spotifyId m = Some ''1''" by simp
  from inst have eq: "setMapping 20 ?dB (setMapping 10 ?dA []) =
      [(''x'', \<lparr>spotifyId = Some ''1'', spotifyName = None, lastFmName = Some ''2'',
               unifiedId = ''x'', lastUpdated = 20\<rparr>)]"
    by simp
  from m(1,2) l sp have "\<exists>m. map_of (setMapping 20 ?dB (setMapping 10 ?dA [])) ''x'' = Some m \<and>
        spotifyId m = Some ''1'' \<and> lastFmName m = Some ''2'' \<and> lastUpdated m = 20"
    by simp
  with eq show ?thesis by blast
qed

section \<open>Properties of the stale-while-revalidate cache\<close>

subsection \<open>Single flight as an invariant of the event loop\<close>

lemma executeFetch_frame:
  "cache (executeFetch key r k s) = cache s"
  "returned (executeFetch key r k s) = returned s"
  "errorLog (executeFetch key r k s) = errorLog s"
  by (simp_all add: executeFetch_def Let_def split: option.splits)

lemma executeFetch_Some:
  "revalidationPromises s key = Some p \<Longrightarrow>
     executeFetch key r k s = s\<lparr>tasks := tasks s @ [FetchShared p k]\<rparr>"
  by (simp add: executeFetch_def)

lemma executeFetch_None:
  "revalidationPromises s key = None \<Longrightarrow>
     executeFetch key r k s =
       s\<lparr>upstream := upstream s @
             [\<lparr>fetch_key = key, fetch_revalidator = r, fetch_outcome = None\<rparr>],
         revalidationPromises := (revalidationPromises s)(key \<mapsto> length (upstream s)),
         tasks := tasks s @ [FetchOwner key (length (upstream s)) k]\<rparr>"
  by (simp add: executeFetch_def Let_def)

lemma singleFlight_cong:
  "upstream s' = upstream s \<Longrightarrow> tasks s' = tasks s \<Longrightarrow>
   revalidationPromises s' = revalidationPromises s \<Longrightarrow> singleFlight s' = singleFlight s"
  by (simp add: singleFlight_def)

lemma singleFlight_initial: "singleFlight initial"
  by (simp add: singleFlight_def initial_def)

lemma singleFlight_executeFetch:
  assumes "singleFlight s"
  shows "singleFlight (executeFetch key r k s)"
proof (cases "revalidationPromises s key")
  case (Some p)
  with assms show ?thesis
    unfolding executeFetch_Some[OF Some] singleFlight_def
    by (auto simp: nth_append less_Suc_eq)
next
  case None
  have noOwner: "\<And>i p' k'. i < length (tasks s) \<Longrightarrow> tasks s ! i \<noteq> FetchOwner key p' k'"
    using assms None unfolding singleFlight_def by force
  have noPending: "\<And>q. q < length (upstream s) \<Longrightarrow> fetch_outcome (upstream s ! q) = None \<Longrightarrow>
      fetch_key (upstream s ! q) \<noteq> key"
    using assms None unfolding singleFlight_def by force
  show ?thesis
    unfolding executeFetch_None[OF None] singleFlight_def
  proof (intro conjI allI impI, goal_cases)
    case (1 q)
    then show ?case using assms noPending unfolding singleFlight_def
      by (auto simp: nth_append less_Suc_eq split: if_splits)
  next
    case (2 i key' p' k')
    then show ?case using assms noOwner unfolding singleFlight_def
      by (auto simp: nth_append less_Suc_eq split: if_splits)
  next
    case (3 i j key' p' k' p'' k'')
    then show ?case using assms noOwner unfolding singleFlight_def
      by (auto simp: nth_append less_Suc_eq split: if_splits)
  qed
qed

lemma sfD1:
  "singleFlight s \<Longrightarrow> p < length (upstream s) \<Longrightarrow> fetch_outcome (upstream s ! p) = None \<Longrightarrow>
   revalidationPromises s (fetch_key (upstream s ! p)) = Some p"
  unfolding singleFlight_def by blast

lemma sfD2:
  "singleFlight s \<Longrightarrow> i < length (tasks s) \<Longrightarrow> tasks s ! i = FetchOwner key p k \<Longrightarrow>
   revalidationPromises s key = Some p"
  unfolding singleFlight_def by blast

lemma sfD3:
  "singleFlight s \<Longrightarrow> i < length (tasks s) \<Longrightarrow> j < length (tasks s) \<Longrightarrow>
   tasks s ! i = FetchOwner key p k \<Longrightarrow> tasks s ! j = FetchOwner key p' k' \<Longrightarrow> i = j"
  unfolding singleFlight_def by blast


lemma singleFlight_trigger:
  "singleFlight s \<Longrightarrow> singleFlight (triggerBackgroundRevalidation key ct r s)"
proof -
  assume a: "singleFlight s"
  let ?s1 = "case cache s key of
               Some entry \<Rightarrow> s\<lparr>cache := (cache s)(key \<mapsto> entry\<lparr>isRevalidating := True\<rparr>)\<rparr>
             | None \<Rightarrow> s"
  have "singleFlight ?s1 = singleFlight s"
    by (rule singleFlight_cong) (simp_all split: option.splits)
  with a have "singleFlight ?s1" by simp
  then show ?thesis
    unfolding triggerBackgroundRevalidation_def Let_def by (rule singleFlight_executeFetch)
qed

lemma singleFlight_returned:
  "singleFlight (s\<lparr>returned := x\<rparr>) = singleFlight s"
  by (rule singleFlight_cong) simp_all

lemma singleFlight_get:
  "singleFlight s \<Longrightarrow> singleFlight (get caller now key ct r s)"
  unfolding get_def Let_def
  by (auto simp: singleFlight_returned singleFlight_executeFetch singleFlight_trigger
      split: option.splits)

lemma singleFlight_set_cache:
  "singleFlight s \<Longrightarrow> singleFlight (set_cache now key v ct s)"
  by (simp add: singleFlight_def set_cache_def)

lemma singleFlight_cleanup:
  "singleFlight s \<Longrightarrow> singleFlight (cleanup now s)"
  by (simp add: singleFlight_def cleanup_def)

lemma singleFlight_settle:
  assumes "singleFlight s" and "settle p out s = Some s'"
  shows "singleFlight s'"
proof -
  from assms(2) have s': "s' = s\<lparr>upstream := (upstream s)[p := (upstream s ! p)\<lparr>fetch_outcome := Some out\<rparr>]\<rparr>"
    and p: "p < length (upstream s)"
    by (auto simp: settle_def split: if_splits)
  show ?thesis unfolding s' singleFlight_def
  proof (intro conjI allI impI, goal_cases)
    case (1 q)
    then have q: "q < length (upstream s)" by simp
    have qp: "q \<noteq> p"
    proof
      assume "q = p"
      with 1 p show False by simp
    qed
    with 1 have "fetch_outcome (upstream s ! q) = None" by simp
    with sfD1[OF assms(1) q] qp show ?case by simp
  next
    case (2 j key p' k)
    then show ?case using sfD2[OF assms(1), of j key p' k] by simp
  next
    case (3 j j' key p' k p'' k')
    then show ?case using sfD3[OF assms(1), of j j' key p' k p'' k'] by simp
  qed
qed

lemma runContinuation_frame:
  "upstream (runContinuation k t out s) = upstream s"
  "tasks (runContinuation k t out s) = tasks s"
  "revalidationPromises (runContinuation k t out s) = revalidationPromises s"
  by (cases k; cases out; simp)+

lemma outcome_Some:
  "outcome s p = Some out \<longleftrightarrow> p < length (upstream s) \<and> fetch_outcome (upstream s ! p) = Some out"
  by (simp add: outcome_def)

lemma singleFlight_no_new_owner:
  assumes inv: "singleFlight s" and i: "i < length (tasks s)"
    and x: "\<And>key p k. x \<noteq> FetchOwner key p k"
  shows "singleFlight (s\<lparr>tasks := (tasks s)[i := x]\<rparr>)"
  unfolding singleFlight_def
proof (intro conjI allI impI, goal_cases)
  case (1 q)
  then show ?case using sfD1[OF inv] by simp
next
  case (2 j key p k)
  then have "j \<noteq> i" using x i by (auto simp: nth_list_update split: if_splits)
  with 2 show ?case using sfD2[OF inv, of j key p k] by simp
next
  case (3 j j' key p k p' k')
  then have "j \<noteq> i" "j' \<noteq> i" using x i by (auto simp: nth_list_update split: if_splits)
  with 3 show ?case using sfD3[OF inv, of j j' key p k p' k'] by simp
qed

lemma singleFlight_runTask:
  assumes inv: "singleFlight s" and run: "runTask i t s = Some s'"
  shows "singleFlight s'"
proof -
  from run have i: "i < length (tasks s)" by (auto simp: runTask_def split: if_splits)
  show ?thesis
  proof (cases "tasks s ! i")
    case (FetchOwner key p k)
    with run i obtain out where out: "outcome s p = Some out"
      and s': "s' = s\<lparr>revalidationPromises := (revalidationPromises s)(key := None),
                      tasks := (tasks s)[i := FetchDone p k]\<rparr>"
      by (auto simp: runTask_def split: option.splits)
    from sfD2[OF inv i FetchOwner] have reg: "revalidationPromises s key = Some p" .
    have noPending: "fetch_key (upstream s ! q) \<noteq> key"
      if q: "q < length (upstream s)" "fetch_outcome (upstream s ! q) = None" for q
    proof
      assume "fetch_key (upstream s ! q) = key"
      with sfD1[OF inv q] reg have "q = p" by simp
      with q out show False by (simp add: outcome_Some)
    qed
    have inv1: "singleFlight (s\<lparr>tasks := (tasks s)[i := FetchDone p k]\<rparr>)"
      by (rule singleFlight_no_new_owner[OF inv i]) simp
    show ?thesis unfolding s' singleFlight_def
    proof (intro conjI allI impI, goal_cases)
      case (1 q)
      then have "fetch_key (upstream s ! q) \<noteq> key" using noPending by simp
      with 1 show ?case using sfD1[OF inv, of q] by simp
    next
      case (2 j key' p' k')
      then have ji: "j \<noteq> i" and jl: "j < length (tasks s)"
        and tj: "tasks s ! j = FetchOwner key' p' k'"
        using i by (auto simp: nth_list_update split: if_splits)
      have "key' \<noteq> key"
      proof
        assume "key' = key"
        with sfD3[OF inv jl i, of key p' k' p k] tj FetchOwner ji show False by simp
      qed
      with sfD2[OF inv jl tj] show ?case by simp
    next
      case (3 j j' key' p' k' p'' k'')
      then show ?case using sfD3[OF inv1, of j j' key' p' k' p'' k''] by simp
    qed
  next
    case (FetchDone p k)
    with run i obtain out where
      s': "s' = runContinuation k t out (s\<lparr>tasks := (tasks s)[i := Completed]\<rparr>)"
      by (auto simp: runTask_def split: option.splits)
    have "singleFlight (s\<lparr>tasks := (tasks s)[i := Completed]\<rparr>)"
      by (rule singleFlight_no_new_owner[OF inv i]) simp
    then show ?thesis unfolding s'
      by (simp add: singleFlight_cong[OF runContinuation_frame])
  next
    case (FetchShared p k)
    with run i obtain out where
      s': "s' = runContinuation k t out (s\<lparr>tasks := (tasks s)[i := Completed]\<rparr>)"
      by (auto simp: runTask_def split: option.splits)
    have "singleFlight (s\<lparr>tasks := (tasks s)[i := Completed]\<rparr>)"
      by (rule singleFlight_no_new_owner[OF inv i]) simp
    then show ?thesis unfolding s'
      by (simp add: singleFlight_cong[OF runContinuation_frame])
  next
    case Completed
    with run i show ?thesis by (simp add: runTask_def)
  qed
qed

lemma singleFlight_step:
  "singleFlight s \<Longrightarrow> step ev s = Some s' \<Longrightarrow> singleFlight s'"
  by (cases ev)
     (auto simp: singleFlight_get singleFlight_set_cache singleFlight_cleanup
        intro: singleFlight_settle singleFlight_runTask)

lemma singleFlight_run:
  "singleFlight s \<Longrightarrow> run evs s = Some s' \<Longrightarrow> singleFlight s'"
proof (induction evs arbitrary: s)
  case Nil
  then show ?case by simp
next
  case (Cons ev evs)
  then show ?case
    by (auto split: option.splits dest: singleFlight_step)
qed

lemma filter_at_most_one:
  "(\<And>i j. i < length xs \<Longrightarrow> j < length xs \<Longrightarrow> P (xs ! i) \<Longrightarrow> P (xs ! j) \<Longrightarrow> i = j) \<Longrightarrow>
   length (filter P xs) \<le> 1"
proof (induction xs)
  case Nil
  then show ?case by simp
next
  case (Cons x xs)
  have ih: "length (filter P xs) \<le> 1"
  proof (rule Cons.IH)
    fix i j assume "i < length xs" "j < length xs" "P (xs ! i)" "P (xs ! j)"
    with Cons.prems[of "Suc i" "Suc j"] show "i = j" by simp
  qed
  show ?case
  proof (cases "P x")
    case True
    have "\<forall>y \<in> set xs. \<not> P y"
    proof
      fix y assume "y \<in> set xs"
      then obtain j where j: "j < length xs" "xs ! j = y" by (auto simp: in_set_conv_nth)
      show "\<not> P y"
      proof
        assume "P y"
        with Cons.prems[of 0 "Suc j"] True j show False by simp
      qed
    qed
    then have "filter P xs = []" by (simp add: filter_empty_conv)
    with True show ?thesis by simp
  next
    case False
    with ih show ?thesis by simp
  qed
qed

lemma singleFlight_inFlight:
  assumes "singleFlight s"
  shows "length (inFlight s key) \<le> 1"
  unfolding inFlight_def
proof (rule filter_at_most_one)
  fix i j
  assume "i < length (upstream s)" "j < length (upstream s)"
    "fetch_key (upstream s ! i) = key \<and> fetch_outcome (upstream s ! i) = None"
    "fetch_key (upstream s ! j) = key \<and> fetch_outcome (upstream s ! j) = None"
  with sfD1[OF assms, of i] sfD1[OF assms, of j]
  have "revalidationPromises s key = Some i" "revalidationPromises s key = Some j"
    by simp_all
  then show "i = j" by simp
qed


subsection \<open>What a step keeps\<close>






lemma runTask_cases:
  assumes "runTask i t s = Some s'"
  obtains (owner) key p k out where "i < length (tasks s)" "tasks s ! i = FetchOwner key p k"
      "outcome s p = Some out"
      "s' = s\<lparr>revalidationPromises := (revalidationPromises s)(key := None),
              tasks := (tasks s)[i := FetchDone p k]\<rparr>"
  | (resume) p k out where "i < length (tasks s)"
      "tasks s ! i = FetchDone p k \<or> tasks s ! i = FetchShared p k"
      "outcome s p = Some out"
      "s' = runContinuation k t out (s\<lparr>tasks := (tasks s)[i := Completed]\<rparr>)"
  using assms
  by (cases "tasks s ! i") (auto simp: runTask_def split: if_splits option.splits)




subsection \<open>The branches of \<^verbatim>\<open>get\<close>, and a miss from call to return\<close>

lemma CONFIG_fresh_le_stale: "freshTTL (CONFIG ct) \<le> staleTTL (CONFIG ct)"
  by (cases ct) simp_all

lemma get_expired:
  "cache s key = Some entry \<Longrightarrow> now - createdAt entry > staleTTL (CONFIG ct) \<Longrightarrow>
   get caller now key ct r s = executeFetch key r (GetCont caller now key ct) s"
  by (simp add: get_def)

lemma get_fresh:
  assumes "cache s key = Some entry" and "now - createdAt entry \<le> freshTTL (CONFIG ct)"
  shows "get caller now key ct r s =
     s\<lparr>returned := returned s @
        [(caller, Inr \<lparr>result_data = data entry, isStale = False, source = FromCache\<rparr>)]\<rparr>"
  using assms CONFIG_fresh_le_stale[of ct] by (simp add: get_def)

lemma get_stale:
  assumes "cache s key = Some entry" and "freshTTL (CONFIG ct) < now - createdAt entry"
    and "now - createdAt entry \<le> staleTTL (CONFIG ct)"
  shows "get caller now key ct r s =
     (if isRevalidating entry then s
      else executeFetch key r (BackgroundCont key ct)
             (s\<lparr>cache := (cache s)(key \<mapsto> entry\<lparr>isRevalidating := True\<rparr>)\<rparr>))
     \<lparr>returned := returned s @
        [(caller, Inr \<lparr>result_data = data entry, isStale = True, source = FromCache\<rparr>)]\<rparr>"
  using assms
  by (simp add: get_def triggerBackgroundRevalidation_def Let_def executeFetch_frame)

lemma miss_owner_run:
  assumes miss: "get caller now key ct r s = executeFetch key r k s"
    and none: "revalidationPromises s key = None"
  shows "run [EvGet caller now key ct r, EvSettle (length (upstream s)) out,
              EvRun (length (tasks s)) t1, EvRun (length (tasks s)) t2] s =
         Some (runContinuation k t2 out
           (s\<lparr>upstream := upstream s @
                  [\<lparr>fetch_key = key, fetch_revalidator = r, fetch_outcome = Some out\<rparr>],
               tasks := tasks s @ [Completed]\<rparr>))"
proof -
  have m: "(revalidationPromises s)(key := None) = revalidationPromises s"
    using none by (simp add: fun_upd_idem)
  show ?thesis
    by (simp add: miss executeFetch_None[OF none] settle_def runTask_def outcome_def m)
qed

lemma miss_shared_run:
  assumes miss: "get caller now key ct r s = executeFetch key r k s"
    and some: "revalidationPromises s key = Some p"
    and p: "p < length (upstream s)" "fetch_outcome (upstream s ! p) = None"
  shows "run [EvGet caller now key ct r, EvSettle p out, EvRun (length (tasks s)) t] s =
         Some (runContinuation k t out
           (s\<lparr>upstream := (upstream s)[p := (upstream s ! p)\<lparr>fetch_outcome := Some out\<rparr>],
               tasks := tasks s @ [Completed]\<rparr>))"
  using p by (simp add: miss executeFetch_Some[OF some] settle_def runTask_def outcome_def)

subsection \<open>Concurrent misses, and what the waiting callers receive\<close>


lemma get_absent:
  "cache s key = None \<Longrightarrow>
   get caller now key ct r s = executeFetch key r (GetCont caller now key ct) s"
  by (simp add: get_def)



lemma runContinuation_GetCont_returned:
  "returned (runContinuation (GetCont c now key ct) t out s) = returned s @ [(c, delivered out)]"
  by (cases out) simp_all

lemma awaiting_runTask:
  assumes aw: "awaiting s i p c" and r: "runTask i t s = Some s'"
  shows "(awaiting s' i p c \<and> returned s' = returned s) \<or>
         (\<exists>out. outcome s p = Some out \<and> tasks s' ! i = Completed \<and>
                returned s' = returned s @ [(c, delivered out)])"
  using r
proof (cases rule: runTask_cases)
  case (owner key q k out)
  with aw have "waitsFor (FetchDone q k) = Some (p, c)"
    by (cases k) (simp_all add: awaiting_def)
  with owner show ?thesis by (simp add: awaiting_def)
next
  case (resume q k out)
  from aw resume(2) have w: "waitsFor (FetchDone q k) = Some (p, c)"
    by (cases k) (auto simp add: awaiting_def)
  then obtain now key ct where k: "k = GetCont c now key ct" and q: "q = p"
    by (cases k) simp_all
  have "tasks s' ! i = Completed"
    using resume(1) by (simp add: resume(4) runContinuation_frame)
  moreover have "returned s' = returned s @ [(c, delivered out)]"
    unfolding resume(4) k by (simp add: runContinuation_GetCont_returned)
  ultimately show ?thesis using resume(3) q by blast
qed




lemma inFlight_registered:
  assumes inv: "singleFlight s" and fl: "inFlight s key \<noteq> []"
  shows "\<exists>p. revalidationPromises s key = Some p"
proof -
  from fl obtain f where f: "f \<in> set (upstream s)" "fetch_key f = key" "fetch_outcome f = None"
    by (auto simp: inFlight_def filter_empty_conv)
  then obtain p where p: "p < length (upstream s)" "upstream s ! p = f"
    by (auto simp: in_set_conv_nth)
  with sfD1[OF inv, of p] f show ?thesis by auto
qed

lemma get_registered_upstream:
  assumes "revalidationPromises s key = Some p"
  shows "upstream (get caller now key ct r s) = upstream s"
proof -
  have ef: "upstream (executeFetch key r k s') = upstream s'"
    if "revalidationPromises s' key = Some p" for k and s' :: "('a, 'b) swr"
    using that by (simp add: executeFetch_Some)
  show ?thesis
  proof (cases "cache s key")
    case None
    then show ?thesis using assms by (simp add: get_def ef)
  next
    case (Some entry)
    have "upstream (triggerBackgroundRevalidation key ct r s) = upstream s"
      using assms Some by (simp add: triggerBackgroundRevalidation_def ef)
    then show ?thesis using assms Some by (simp add: get_def Let_def ef)
  qed
qed
















subsection \<open>A fresh entry, and the return of a fetch\<close>

text \<open>
  Claim C3. The policy is the one of the content type passed to \<^verbatim>\<open>get\<close>
  (\<^verbatim>\<open>this.CONFIG[contentType]\<close>).
  \<^item> When the entry of \<open>key\<close> has an age of at most \<open>freshTTL\<close>, \<^verbatim>\<open>get\<close> returns its data with
    \<open>isStale = false\<close> and \<open>source = cache\<close> and changes nothing else: no revalidator is
    called, no call is suspended.
  \<^item> When \<open>key\<close> has no entry, or an expired one, the \<^verbatim>\<open>get\<close> that fetches returns, once
    the fetch has succeeded with \<open>v\<close>, the value \<open>v\<close> with \<open>isStale = false\<close> and
    \<open>source = fresh\<close>, and has stored \<open>v\<close> with \<open>createdAt = now\<close>; so does a \<^verbatim>\<open>get\<close> that
    joins a fetch in flight.
\<close>

theorem fresh_entry_served_from_cache:
  "(cache s key = Some entry \<and> now - createdAt entry \<le> freshTTL (CONFIG ct) \<longrightarrow>
      get caller now key ct r s =
        s\<lparr>returned := returned s @
           [(caller, Inr \<lparr>result_data = data entry, isStale = False, source = FromCache\<rparr>)]\<rparr>) \<and>
   ((cache s key = None \<or>
     (\<exists>old. cache s key = Some old \<and> now - createdAt old > staleTTL (CONFIG ct))) \<and>
    revalidationPromises s key = None \<longrightarrow>
      (\<exists>s'. run [EvGet caller now key ct r, EvSettle (length (upstream s)) (Inr v),
                  EvRun (length (tasks s)) t1, EvRun (length (tasks s)) t2] s = Some s' \<and>
            returned s' = returned s @
              [(caller, Inr \<lparr>result_data = v, isStale = False, source = Fresh\<rparr>)] \<and>
            cache s' = (cache s)(key \<mapsto>
              \<lparr>data = v, createdAt = now, isRevalidating = False, contentType = ct\<rparr>) \<and>
            upstream s' = upstream s @
              [\<lparr>fetch_key = key, fetch_revalidator = r, fetch_outcome = Some (Inr v)\<rparr>])) \<and>
   ((cache s key = None \<or>
     (\<exists>old. cache s key = Some old \<and> now - createdAt old > staleTTL (CONFIG ct))) \<and>
    revalidationPromises s key = Some p \<and> p < length (upstream s) \<and>
    fetch_outcome (upstream s ! p) = None \<longrightarrow>
      (\<exists>s'. run [EvGet caller now key ct r, EvSettle p (Inr v),
                  EvRun (length (tasks s)) t1] s = Some s' \<and>
            returned s' = returned s @
              [(caller, Inr \<lparr>result_data = v, isStale = False, source = Fresh\<rparr>)] \<and>
            cache s' = (cache s)(key \<mapsto>
              \<lparr>data = v, createdAt = now, isRevalidating = False, contentType = ct\<rparr>) \<and>
            length (upstream s') = length (upstream s)))"
proof (intro conjI impI)
  assume "cache s key = Some entry \<and> now - createdAt entry \<le> freshTTL (CONFIG ct)"
  then show "get caller now key ct r s =
        s\<lparr>returned := returned s @
           [(caller, Inr \<lparr>result_data = data entry, isStale = False, source = FromCache\<rparr>)]\<rparr>"
    by (simp add: get_fresh)
next
  assume a: "(cache s key = None \<or>
     (\<exists>old. cache s key = Some old \<and> now - createdAt old > staleTTL (CONFIG ct))) \<and>
    revalidationPromises s key = None"
  then have miss: "get caller now key ct r s = executeFetch key r (GetCont caller now key ct) s"
    by (auto simp: get_absent get_expired)
  from a have none: "revalidationPromises s key = None" by simp
  show "\<exists>s'. run [EvGet caller now key ct r, EvSettle (length (upstream s)) (Inr v),
                  EvRun (length (tasks s)) t1, EvRun (length (tasks s)) t2] s = Some s' \<and>
            returned s' = returned s @
              [(caller, Inr \<lparr>result_data = v, isStale = False, source = Fresh\<rparr>)] \<and>
            cache s' = (cache s)(key \<mapsto>
              \<lparr>data = v, createdAt = now, isRevalidating = False, contentType = ct\<rparr>) \<and>
            upstream s' = upstream s @
              [\<lparr>fetch_key = key, fetch_revalidator = r, fetch_outcome = Some (Inr v)\<rparr>]"
    unfolding miss_owner_run[OF miss none] by simp
next
  assume a: "(cache s key = None \<or>
     (\<exists>old. cache s key = Some old \<and> now - createdAt old > staleTTL (CONFIG ct))) \<and>
    revalidationPromises s key = Some p \<and> p < length (upstream s) \<and>
    fetch_outcome (upstream s ! p) = None"
  then have miss: "get caller now key ct r s = executeFetch key r (GetCont caller now key ct) s"
    by (auto simp: get_absent get_expired)
  from a have some: "revalidationPromises s key = Some p" and p: "p < length (upstream s)"
    "fetch_outcome (upstream s ! p) = None" by simp_all
  show "\<exists>s'. run [EvGet caller now key ct r, EvSettle p (Inr v),
                  EvRun (length (tasks s)) t1] s = Some s' \<and>
            returned s' = returned s @
              [(caller, Inr \<lparr>result_data = v, isStale = False, source = Fresh\<rparr>)] \<and>
            cache s' = (cache s)(key \<mapsto>
              \<lparr>data = v, createdAt = now, isRevalidating = False, contentType = ct\<rparr>) \<and>
            length (upstream s') = length (upstream s)"
    unfolding miss_shared_run[OF miss some p] by simp
qed

text \<open>
  The theorem on the empty cache: the miss at time 0 returns \<open>"X"\<close> fresh, and the \<^verbatim>\<open>get\<close>
  ten minutes later returns \<open>"X"\<close> from the cache, not stale; a second caller that joins
  the fetch of the first returns \<open>"X"\<close> fresh as well.
\<close>

theorem fresh_entry_served_from_cache_witness:
  "(\<exists>s'. run [EvGet 1 0 ''k'' CtArtistData 7, EvSettle 0 (Inr ''X''), EvRun 0 900, EvRun 0 901]
            (initial :: (string, string) swr) = Some s' \<and>
         returned s' = [(1, Inr \<lparr>result_data = ''X'', isStale = False, source = Fresh\<rparr>)] \<and>
         cache s' ''k'' = Some \<lparr>data = ''X'', createdAt = 0, isRevalidating = False,
                                contentType = CtArtistData\<rparr> \<and>
         get 2 600000 ''k'' CtArtistData 8 s' =
           s'\<lparr>returned := returned s' @
              [(2, Inr \<lparr>result_data = ''X'', isStale = False, source = FromCache\<rparr>)]\<rparr>) \<and>
   (\<exists>s'. run [EvGet 2 5 ''k'' CtArtistData 8, EvSettle 0 (Inr ''X''), EvRun 1 900]
            (get 1 0 ''k'' CtArtistData 7 (initial :: (string, string) swr)) = Some s' \<and>
         returned s' = [(2, Inr \<lparr>result_data = ''X'', isStale = False, source = Fresh\<rparr>)] \<and>
         cache s' ''k'' = Some \<lparr>data = ''X'', createdAt = 5, isRevalidating = False,
                                contentType = CtArtistData\<rparr>)"
proof -
  let ?ini = "initial :: (string, string) swr"
  let ?e = "\<lparr>data = ''X'', createdAt = 0, isRevalidating = False, contentType = CtArtistData\<rparr>"
  have absent: "cache ?ini ''k'' = None" "revalidationPromises ?ini ''k'' = None"
    "length (upstream ?ini) = 0" "length (tasks ?ini) = 0" "returned ?ini = []"
    by (simp_all add: initial_def)
  from fresh_entry_served_from_cache
    [where s="?ini" and key="''k''" and now=0 and ct=CtArtistData and caller=1 and r=7
       and v="''X''" and ?t1.0=900 and ?t2.0=901] absent
  obtain s' where s': "run [EvGet 1 0 ''k'' CtArtistData 7, EvSettle 0 (Inr ''X''),
                            EvRun 0 900, EvRun 0 901] ?ini = Some s'"
    "returned s' = [(1, Inr \<lparr>result_data = ''X'', isStale = False, source = Fresh\<rparr>)]"
    "cache s' = (cache ?ini)(''k'' \<mapsto> ?e)"
    by auto
  then have c: "cache s' ''k'' = Some ?e" by simp
  have "(600000 :: int) - createdAt ?e \<le> freshTTL (CONFIG CtArtistData)" by simp
  with fresh_entry_served_from_cache
    [where s=s' and key="''k''" and entry="?e" and now=600000 and ct=CtArtistData and caller=2
       and r=8] c
  have "get 2 600000 ''k'' CtArtistData 8 s' =
           s'\<lparr>returned := returned s' @
              [(2, Inr \<lparr>result_data = data ?e, isStale = False, source = FromCache\<rparr>)]\<rparr>"
    by blast
  with s' c have first: "\<exists>s'. run [EvGet 1 0 ''k'' CtArtistData 7, EvSettle 0 (Inr ''X''),
         EvRun 0 900, EvRun 0 901] ?ini = Some s' \<and>
         returned s' = [(1, Inr \<lparr>result_data = ''X'', isStale = False, source = Fresh\<rparr>)] \<and>
         cache s' ''k'' = Some ?e \<and>
         get 2 600000 ''k'' CtArtistData 8 s' =
           s'\<lparr>returned := returned s' @
              [(2, Inr \<lparr>result_data = ''X'', isStale = False, source = FromCache\<rparr>)]\<rparr>"
    by auto
  let ?j = "get 1 0 ''k'' CtArtistData 7 ?ini"
  have j: "cache ?j ''k'' = None" "revalidationPromises ?j ''k'' = Some 0"
    "0 < length (upstream ?j)" "fetch_outcome (upstream ?j ! 0) = None"
    "length (tasks ?j) = 1" "returned ?j = []"
    by (simp_all add: get_def executeFetch_def initial_def)
  from fresh_entry_served_from_cache
    [where s="?j" and key="''k''" and now=5 and ct=CtArtistData and caller=2 and r=8
       and v="''X''" and ?t1.0=900 and p=0, unfolded j(5,6) append_Nil] j(1-4)
  obtain s'' where s'': "run [EvGet 2 5 ''k'' CtArtistData 8, EvSettle 0 (Inr ''X''), EvRun 1 900] ?j
        = Some s''"
    "returned s'' = [(2, Inr \<lparr>result_data = ''X'', isStale = False, source = Fresh\<rparr>)]"
    "cache s'' = (cache ?j)(''k'' \<mapsto> \<lparr>data = ''X'', createdAt = 5, isRevalidating = False,
                                contentType = CtArtistData\<rparr>)"
    by blast
  then have second: "\<exists>s'. run [EvGet 2 5 ''k'' CtArtistData 8, EvSettle 0 (Inr ''X''), EvRun 1 900]
            ?j = Some s' \<and>
         returned s' = [(2, Inr \<lparr>result_data = ''X'', isStale = False, source = Fresh\<rparr>)] \<and>
         cache s' ''k'' = Some \<lparr>data = ''X'', createdAt = 5, isRevalidating = False,
                                contentType = CtArtistData\<rparr>"
    by (intro exI[of _ s'']) simp
  from first second show ?thesis by blast
qed

subsection \<open>A stale entry\<close>

text \<open>
  Claim C4. For an entry in the stale window of the content type passed to \<^verbatim>\<open>get\<close>:
  \<^item> \<^verbatim>\<open>get\<close> returns the cached data with \<open>isStale = true\<close> and \<open>source = cache\<close> at once, and
    is not suspended: every suspended \<^verbatim>\<open>get\<close> of the resulting state was suspended before;
  \<^item> when the entry is marked as revalidating, nothing else changes;
  \<^item> when it is not, the entry is marked, and one suspended background call is added; the
    revalidator is called only if no promise is stored for the key, otherwise the background
    call joins the fetch in flight;
  \<^item> a second \<^verbatim>\<open>get\<close> in the stale window, right after the first, only returns: it starts
    nothing;
  \<^item> in a reachable state, at most one call to a revalidator is in flight per key after the
    \<^verbatim>\<open>get\<close>, and when one is in flight for \<open>key\<close> before the \<^verbatim>\<open>get\<close>, the \<^verbatim>\<open>get\<close> calls
    no revalidator.
  In flight means: a call to a revalidator whose promise is pending. The mark of the entry
  can be cleared while the fetch is in flight (by \<^verbatim>\<open>set\<close>, or by a \<^verbatim>\<open>get\<close> that resumes after
  an earlier fetch); a later \<^verbatim>\<open>get\<close> in the stale window then adds a background call that
  waits for the fetch in flight, and calls no revalidator.
\<close>

theorem stale_entry_served_and_revalidated_once:
  assumes "cache s key = Some entry"
    and "freshTTL (CONFIG ct) < now - createdAt entry"
    and "now - createdAt entry \<le> staleTTL (CONFIG ct)"
  shows "returned (get caller now key ct r s) = returned s @
           [(caller, Inr \<lparr>result_data = data entry, isStale = True, source = FromCache\<rparr>)] \<and>
         (\<forall>i p c. awaiting (get caller now key ct r s) i p c \<longrightarrow> awaiting s i p c) \<and>
         (isRevalidating entry \<longrightarrow>
            get caller now key ct r s =
              s\<lparr>returned := returned s @
                 [(caller, Inr \<lparr>result_data = data entry, isStale = True, source = FromCache\<rparr>)]\<rparr>) \<and>
         (\<not> isRevalidating entry \<longrightarrow>
            cache (get caller now key ct r s) = (cache s)(key \<mapsto> entry\<lparr>isRevalidating := True\<rparr>) \<and>
            upstream (get caller now key ct r s) = upstream s @
              (case revalidationPromises s key of
                 None \<Rightarrow> [\<lparr>fetch_key = key, fetch_revalidator = r, fetch_outcome = None\<rparr>]
               | Some p \<Rightarrow> []) \<and>
            tasks (get caller now key ct r s) = tasks s @
              [case revalidationPromises s key of
                 None \<Rightarrow> FetchOwner key (length (upstream s)) (BackgroundCont key ct)
               | Some p \<Rightarrow> FetchShared p (BackgroundCont key ct)]) \<and>
         (freshTTL (CONFIG ct2) < now2 - createdAt entry \<and>
          now2 - createdAt entry \<le> staleTTL (CONFIG ct2) \<longrightarrow>
            get c2 now2 key ct2 r2 (get caller now key ct r s) =
              (get caller now key ct r s)
                \<lparr>returned := returned (get caller now key ct r s) @
                   [(c2, Inr \<lparr>result_data = data entry, isStale = True, source = FromCache\<rparr>)]\<rparr>) \<and>
         (run evs initial = Some s \<longrightarrow> length (inFlight (get caller now key ct r s) key') \<le> 1) \<and>
         (run evs initial = Some s \<and> inFlight s key \<noteq> [] \<longrightarrow>
            upstream (get caller now key ct r s) = upstream s)"
proof (intro conjI impI allI)
  note g = get_stale[OF assms, of caller r]
  show "returned (get caller now key ct r s) = returned s @
           [(caller, Inr \<lparr>result_data = data entry, isStale = True, source = FromCache\<rparr>)]"
    by (simp add: g)
  show "get caller now key ct r s =
              s\<lparr>returned := returned s @
                 [(caller, Inr \<lparr>result_data = data entry, isStale = True, source = FromCache\<rparr>)]\<rparr>"
    if "isRevalidating entry"
    using that by (simp add: g)
  {
    assume nr: "\<not> isRevalidating entry"
    show "cache (get caller now key ct r s) = (cache s)(key \<mapsto> entry\<lparr>isRevalidating := True\<rparr>)"
      using nr by (simp add: g executeFetch_frame)
    show "upstream (get caller now key ct r s) = upstream s @
              (case revalidationPromises s key of
                 None \<Rightarrow> [\<lparr>fetch_key = key, fetch_revalidator = r, fetch_outcome = None\<rparr>]
               | Some p \<Rightarrow> [])"
      using nr by (simp add: g executeFetch_def Let_def split: option.splits)
    show "tasks (get caller now key ct r s) = tasks s @
              [case revalidationPromises s key of
                 None \<Rightarrow> FetchOwner key (length (upstream s)) (BackgroundCont key ct)
               | Some p \<Rightarrow> FetchShared p (BackgroundCont key ct)]"
      using nr by (simp add: g executeFetch_def Let_def split: option.splits)
  }
  {
    fix i p c
    assume aw: "awaiting (get caller now key ct r s) i p c"
    show "awaiting s i p c"
    proof (cases "isRevalidating entry")
      case True
      with aw show ?thesis by (simp add: g awaiting_def)
    next
      case False
      with aw show ?thesis
        by (auto simp add: g awaiting_def executeFetch_def Let_def nth_append
            split: option.splits if_splits)
    qed
  }
  {
    assume st2: "freshTTL (CONFIG ct2) < now2 - createdAt entry \<and>
          now2 - createdAt entry \<le> staleTTL (CONFIG ct2)"
    let ?s1 = "get caller now key ct r s"
    obtain entry1 where e1: "cache ?s1 key = Some entry1" "isRevalidating entry1"
      "createdAt entry1 = createdAt entry" "data entry1 = data entry"
      using assms(1) by (cases "isRevalidating entry") (simp_all add: g executeFetch_frame)
    from get_stale[of ?s1 key entry1 ct2 now2 c2 r2] e1 st2
    show "get c2 now2 key ct2 r2 ?s1 =
              ?s1\<lparr>returned := returned ?s1 @
                   [(c2, Inr \<lparr>result_data = data entry, isStale = True, source = FromCache\<rparr>)]\<rparr>"
      by simp
  }
  {
    assume "run evs initial = Some s"
    then have "singleFlight s" by (rule singleFlight_run[OF singleFlight_initial])
    then have "singleFlight (get caller now key ct r s)" by (rule singleFlight_get)
    then show "length (inFlight (get caller now key ct r s) key') \<le> 1"
      by (rule singleFlight_inFlight)
  }
  {
    assume a: "run evs initial = Some s \<and> inFlight s key \<noteq> []"
    then have "singleFlight s" using singleFlight_run[OF singleFlight_initial] by blast
    with a obtain p where "revalidationPromises s key = Some p"
      using inFlight_registered by blast
    then show "upstream (get caller now key ct r s) = upstream s"
      by (rule get_registered_upstream)
  }
qed

text \<open>
  The theorem at an entry written at time 0 and read after 50 minutes, twice: both reads
  return \<open>"X"\<close> stale, and there is one upstream call and one background call.
\<close>

theorem stale_entry_served_and_revalidated_once_witness:
  "returned (get 1 3000000 ''k'' CtArtistData 7
      (set_cache 0 ''k'' ''X'' CtArtistData (initial :: (string, string) swr))) =
     [(1, Inr \<lparr>result_data = ''X'', isStale = True, source = FromCache\<rparr>)] \<and>
   upstream (get 1 3000000 ''k'' CtArtistData 7
      (set_cache 0 ''k'' ''X'' CtArtistData (initial :: (string, string) swr))) =
     [\<lparr>fetch_key = ''k'', fetch_revalidator = 7, fetch_outcome = None\<rparr>] \<and>
   upstream (get 2 3000001 ''k'' CtArtistData 8 (get 1 3000000 ''k'' CtArtistData 7
      (set_cache 0 ''k'' ''X'' CtArtistData (initial :: (string, string) swr)))) =
     [\<lparr>fetch_key = ''k'', fetch_revalidator = 7, fetch_outcome = None\<rparr>] \<and>
   tasks (get 2 3000001 ''k'' CtArtistData 8 (get 1 3000000 ''k'' CtArtistData 7
      (set_cache 0 ''k'' ''X'' CtArtistData (initial :: (string, string) swr)))) =
     [FetchOwner ''k'' 0 (BackgroundCont ''k'' CtArtistData)]"
proof -
  let ?st = "set_cache 0 ''k'' ''X'' CtArtistData (initial :: (string, string) swr)"
  let ?e = "\<lparr>data = ''X'', createdAt = 0, isRevalidating = False, contentType = CtArtistData\<rparr>"
  let ?g1 = "get 1 3000000 ''k'' CtArtistData 7 ?st"
  have e: "cache ?st ''k'' = Some ?e" by (simp add: set_cache_def)
  have st: "freshTTL (CONFIG CtArtistData) < 3000000 - createdAt ?e"
    "3000000 - createdAt ?e \<le> staleTTL (CONFIG CtArtistData)"
    "freshTTL (CONFIG CtArtistData) < 3000001 - createdAt ?e \<and>
     3000001 - createdAt ?e \<le> staleTTL (CONFIG CtArtistData)"
    by simp_all
  have s: "revalidationPromises ?st ''k'' = None" "upstream ?st = []" "tasks ?st = []"
    "returned ?st = []" "\<not> isRevalidating ?e"
    by (simp_all add: set_cache_def initial_def)
  note inst = stale_entry_served_and_revalidated_once[OF e st(1,2),
      where caller=1 and r=7 and ?ct2.0=CtArtistData and ?now2.0=3000001 and ?c2.0=2 and ?r2.0=8]
  from inst s have a: "returned ?g1 =
      [(1, Inr \<lparr>result_data = ''X'', isStale = True, source = FromCache\<rparr>)]" by simp
  from inst s have b: "upstream ?g1 =
      [\<lparr>fetch_key = ''k'', fetch_revalidator = 7, fetch_outcome = None\<rparr>]"
    and c: "tasks ?g1 = [FetchOwner ''k'' 0 (BackgroundCont ''k'' CtArtistData)]"
    and m: "cache ?g1 = (cache ?st)(''k'' \<mapsto> ?e\<lparr>isRevalidating := True\<rparr>)" by simp_all
  from inst st(3) have d: "get 2 3000001 ''k'' CtArtistData 8 ?g1 =
      ?g1\<lparr>returned := returned ?g1 @
           [(2, Inr \<lparr>result_data = data ?e, isStale = True, source = FromCache\<rparr>)]\<rparr>"
    by blast
  have e1: "cache ?g1 ''k'' = Some (?e\<lparr>isRevalidating := True\<rparr>)" by (subst m) simp
  have st1: "freshTTL (CONFIG CtArtistData) < 3000001 - createdAt (?e\<lparr>isRevalidating := True\<rparr>)"
    "3000001 - createdAt (?e\<lparr>isRevalidating := True\<rparr>) \<le> staleTTL (CONFIG CtArtistData)"
    by simp_all
  have reach: "run [EvSet 0 ''k'' ''X'' CtArtistData, EvGet 1 3000000 ''k'' CtArtistData 7]
      (initial :: (string, string) swr) = Some ?g1" by simp
  have fl: "inFlight ?g1 ''k'' \<noteq> []" unfolding inFlight_def b by simp
  from stale_entry_served_and_revalidated_once[OF e1 st1,
      where caller=2 and r=8
        and evs="[EvSet 0 ''k'' ''X'' CtArtistData, EvGet 1 3000000 ''k'' CtArtistData 7]"]
    reach fl
  have up2: "upstream (get 2 3000001 ''k'' CtArtistData 8 ?g1) = upstream ?g1" by blast
  have tk2: "tasks (get 2 3000001 ''k'' CtArtistData 8 ?g1) = tasks ?g1" by (subst d) simp
  from a b c up2 tk2 show ?thesis by simp
qed

subsection \<open>An expired entry\<close>

lemma executeFetch_withoutEntry:
  "executeFetch key' r k (withoutEntry key s) = withoutEntry key (executeFetch key' r k s)"
  by (cases "revalidationPromises s key'")
     (simp_all add: executeFetch_def withoutEntry_def Let_def)

lemma runContinuation_overwrites:
  "runContinuation (GetCont caller now key ct) t (Inr v) (withoutEntry key s) =
   runContinuation (GetCont caller now key ct) t (Inr v) s"
  by (simp add: withoutEntry_def)

lemma runContinuation_error_keeps:
  "runContinuation (GetCont caller now key ct) t (Inl err) s =
     s\<lparr>returned := returned s @ [(caller, Inl err)]\<rparr>"
  by simp

text \<open>
  Claim C5. For an entry older than \<open>staleTTL\<close> of the content type passed to \<^verbatim>\<open>get\<close>,
  \<^verbatim>\<open>get\<close> does what it does without the entry:
  \<^item> up to its \<^verbatim>\<open>await\<close>, \<^verbatim>\<open>get\<close> on the state without the entry is \<^verbatim>\<open>get\<close> on the state
    with it, minus the entry (same upstream call or same joined promise, same suspended
    call), and the entry is left in the table meanwhile;
  \<^item> from call to return, on success, both runs end in the same state: the caller has
    received the value with \<open>isStale = false\<close> and \<open>source = fresh\<close>, and the entry holds it
    with \<open>createdAt = now\<close>; this holds for the call that fetches and for a call that joins a
    fetch in flight;
  \<^item> on failure both runs return the error, and the final states differ only by the expired
    entry, which is still in the table.
\<close>

theorem expired_entry_treated_as_absent:
  assumes "cache s key = Some entry" and "now - createdAt entry > staleTTL (CONFIG ct)"
  shows "get caller now key ct r (withoutEntry key s) = withoutEntry key (get caller now key ct r s) \<and>
         cache (get caller now key ct r s) = cache s \<and>
         (revalidationPromises s key = None \<longrightarrow>
            (\<exists>s'. run [EvGet caller now key ct r, EvSettle (length (upstream s)) (Inr v),
                        EvRun (length (tasks s)) t1, EvRun (length (tasks s)) t2] s = Some s' \<and>
                  run [EvGet caller now key ct r, EvSettle (length (upstream s)) (Inr v),
                        EvRun (length (tasks s)) t1, EvRun (length (tasks s)) t2]
                      (withoutEntry key s) = Some s' \<and>
                  returned s' = returned s @
                    [(caller, Inr \<lparr>result_data = v, isStale = False, source = Fresh\<rparr>)] \<and>
                  cache s' key = Some \<lparr>data = v, createdAt = now, isRevalidating = False,
                                        contentType = ct\<rparr>) \<and>
            (\<exists>s'. run [EvGet caller now key ct r, EvSettle (length (upstream s)) (Inl err),
                        EvRun (length (tasks s)) t1, EvRun (length (tasks s)) t2] s = Some s' \<and>
                  run [EvGet caller now key ct r, EvSettle (length (upstream s)) (Inl err),
                        EvRun (length (tasks s)) t1, EvRun (length (tasks s)) t2]
                      (withoutEntry key s) = Some (withoutEntry key s') \<and>
                  returned s' = returned s @ [(caller, Inl err)] \<and> cache s' = cache s)) \<and>
         (revalidationPromises s key = Some p \<and> p < length (upstream s) \<and>
          fetch_outcome (upstream s ! p) = None \<longrightarrow>
            (\<exists>s'. run [EvGet caller now key ct r, EvSettle p (Inr v),
                        EvRun (length (tasks s)) t1] s = Some s' \<and>
                  run [EvGet caller now key ct r, EvSettle p (Inr v),
                        EvRun (length (tasks s)) t1] (withoutEntry key s) = Some s' \<and>
                  returned s' = returned s @
                    [(caller, Inr \<lparr>result_data = v, isStale = False, source = Fresh\<rparr>)] \<and>
                  cache s' key = Some \<lparr>data = v, createdAt = now, isRevalidating = False,
                                        contentType = ct\<rparr>))"
proof (intro conjI impI)
  have exp: "get caller now key ct r s = executeFetch key r (GetCont caller now key ct) s"
    using assms by (rule get_expired)
  have abs: "get caller now key ct r (withoutEntry key s) =
             executeFetch key r (GetCont caller now key ct) (withoutEntry key s)"
    by (rule get_absent) (simp add: withoutEntry_def)
  show "get caller now key ct r (withoutEntry key s) = withoutEntry key (get caller now key ct r s)"
    by (simp add: exp abs executeFetch_withoutEntry)
  show "cache (get caller now key ct r s) = cache s"
    by (simp add: exp executeFetch_frame)
  have w: "upstream (withoutEntry key s) = upstream s" "tasks (withoutEntry key s) = tasks s"
    "revalidationPromises (withoutEntry key s) = revalidationPromises s"
    "returned (withoutEntry key s) = returned s"
    by (simp_all add: withoutEntry_def)
  {
    assume none: "revalidationPromises s key = None"
    then have none': "revalidationPromises (withoutEntry key s) key = None" by (simp add: w)
    note r1 = miss_owner_run[OF exp none]
    note r2 = miss_owner_run[OF abs none', unfolded w]
    show "\<exists>s'. run [EvGet caller now key ct r, EvSettle (length (upstream s)) (Inr v),
                        EvRun (length (tasks s)) t1, EvRun (length (tasks s)) t2] s = Some s' \<and>
                  run [EvGet caller now key ct r, EvSettle (length (upstream s)) (Inr v),
                        EvRun (length (tasks s)) t1, EvRun (length (tasks s)) t2]
                      (withoutEntry key s) = Some s' \<and>
                  returned s' = returned s @
                    [(caller, Inr \<lparr>result_data = v, isStale = False, source = Fresh\<rparr>)] \<and>
                  cache s' key = Some \<lparr>data = v, createdAt = now, isRevalidating = False,
                                        contentType = ct\<rparr>"
      unfolding r1 r2 by (simp add: withoutEntry_def)
    show "\<exists>s'. run [EvGet caller now key ct r, EvSettle (length (upstream s)) (Inl err),
                        EvRun (length (tasks s)) t1, EvRun (length (tasks s)) t2] s = Some s' \<and>
                  run [EvGet caller now key ct r, EvSettle (length (upstream s)) (Inl err),
                        EvRun (length (tasks s)) t1, EvRun (length (tasks s)) t2]
                      (withoutEntry key s) = Some (withoutEntry key s') \<and>
                  returned s' = returned s @ [(caller, Inl err)] \<and> cache s' = cache s"
      unfolding r1 r2 by (simp add: withoutEntry_def)
  }
  {
    assume a: "revalidationPromises s key = Some p \<and> p < length (upstream s) \<and>
          fetch_outcome (upstream s ! p) = None"
    then have some: "revalidationPromises s key = Some p" and p: "p < length (upstream s)"
      "fetch_outcome (upstream s ! p) = None" by simp_all
    from some have some': "revalidationPromises (withoutEntry key s) key = Some p" by (simp add: w)
    from p have p': "p < length (upstream (withoutEntry key s))"
      "fetch_outcome (upstream (withoutEntry key s) ! p) = None" by (simp_all add: w)
    note r1 = miss_shared_run[OF exp some p]
    note r2 = miss_shared_run[OF abs some' p', unfolded w]
    show "\<exists>s'. run [EvGet caller now key ct r, EvSettle p (Inr v),
                        EvRun (length (tasks s)) t1] s = Some s' \<and>
                  run [EvGet caller now key ct r, EvSettle p (Inr v),
                        EvRun (length (tasks s)) t1] (withoutEntry key s) = Some s' \<and>
                  returned s' = returned s @
                    [(caller, Inr \<lparr>result_data = v, isStale = False, source = Fresh\<rparr>)] \<and>
                  cache s' key = Some \<lparr>data = v, createdAt = now, isRevalidating = False,
                                        contentType = ct\<rparr>"
      unfolding r1 r2 by (simp add: withoutEntry_def)
  }
qed

text \<open>
  The theorem at an entry written at time 0 and read after 3 hours: with or without the
  old entry, the run ends in the same state, with \<open>"new"\<close> returned fresh, for the call that
  fetches and for a second call that joins its fetch.
\<close>

theorem expired_entry_treated_as_absent_witness:
  "(\<exists>s'. run [EvGet 1 10800000 ''k'' CtArtistData 7, EvSettle 0 (Inr ''new''),
              EvRun 0 10800500, EvRun 0 10800501]
            (set_cache 0 ''k'' ''old'' CtArtistData (initial :: (string, string) swr)) = Some s' \<and>
        run [EvGet 1 10800000 ''k'' CtArtistData 7, EvSettle 0 (Inr ''new''),
              EvRun 0 10800500, EvRun 0 10800501]
            (withoutEntry ''k''
               (set_cache 0 ''k'' ''old'' CtArtistData (initial :: (string, string) swr))) = Some s' \<and>
        returned s' = [(1, Inr \<lparr>result_data = ''new'', isStale = False, source = Fresh\<rparr>)] \<and>
        cache s' ''k'' = Some \<lparr>data = ''new'', createdAt = 10800000, isRevalidating = False,
                               contentType = CtArtistData\<rparr>) \<and>
   (\<exists>s'. run [EvGet 2 10800005 ''k'' CtArtistData 8, EvSettle 0 (Inr ''new''), EvRun 1 10800500]
            (get 1 10800000 ''k'' CtArtistData 7
               (set_cache 0 ''k'' ''old'' CtArtistData (initial :: (string, string) swr))) = Some s' \<and>
        run [EvGet 2 10800005 ''k'' CtArtistData 8, EvSettle 0 (Inr ''new''), EvRun 1 10800500]
            (withoutEntry ''k'' (get 1 10800000 ''k'' CtArtistData 7
               (set_cache 0 ''k'' ''old'' CtArtistData (initial :: (string, string) swr)))) = Some s' \<and>
        returned s' = [(2, Inr \<lparr>result_data = ''new'', isStale = False, source = Fresh\<rparr>)] \<and>
        cache s' ''k'' = Some \<lparr>data = ''new'', createdAt = 10800005, isRevalidating = False,
                               contentType = CtArtistData\<rparr>)"
proof -
  let ?st = "set_cache 0 ''k'' ''old'' CtArtistData (initial :: (string, string) swr)"
  let ?e = "\<lparr>data = ''old'', createdAt = 0, isRevalidating = False, contentType = CtArtistData\<rparr>"
  have e: "cache ?st ''k'' = Some ?e" by (simp add: set_cache_def)
  have ex: "10800000 - createdAt ?e > staleTTL (CONFIG CtArtistData)" by simp
  have s: "revalidationPromises ?st ''k'' = None" "length (upstream ?st) = 0"
    "length (tasks ?st) = 0" "returned ?st = []"
    by (simp_all add: set_cache_def initial_def)
  note inst = expired_entry_treated_as_absent[OF e ex, where caller=1 and r=7 and v="''new''"
      and ?t1.0=10800500 and ?t2.0=10800501, unfolded s(2,3,4) append_Nil]
  from inst s(1) have first: "\<exists>s'. run [EvGet 1 10800000 ''k'' CtArtistData 7,
        EvSettle 0 (Inr ''new''), EvRun 0 10800500, EvRun 0 10800501] ?st = Some s' \<and>
        run [EvGet 1 10800000 ''k'' CtArtistData 7, EvSettle 0 (Inr ''new''),
              EvRun 0 10800500, EvRun 0 10800501] (withoutEntry ''k'' ?st) = Some s' \<and>
        returned s' = [(1, Inr \<lparr>result_data = ''new'', isStale = False, source = Fresh\<rparr>)] \<and>
        cache s' ''k'' = Some \<lparr>data = ''new'', createdAt = 10800000, isRevalidating = False,
                               contentType = CtArtistData\<rparr>"
    by blast
  let ?j = "get 1 10800000 ''k'' CtArtistData 7 ?st"
  have j: "cache ?j ''k'' = Some ?e" "revalidationPromises ?j ''k'' = Some 0 \<and>
      0 < length (upstream ?j) \<and> fetch_outcome (upstream ?j ! 0) = None"
    "length (tasks ?j) = 1" "returned ?j = []"
    by (simp_all add: get_def executeFetch_def set_cache_def initial_def)
  have ex2: "10800005 - createdAt ?e > staleTTL (CONFIG CtArtistData)" by simp
  note inst2 = expired_entry_treated_as_absent[OF j(1) ex2, where caller=2 and r=8
      and v="''new''" and ?t1.0=10800500 and p=0, unfolded j(3,4) append_Nil]
  from inst2 j(2) have second: "\<exists>s'. run [EvGet 2 10800005 ''k'' CtArtistData 8,
        EvSettle 0 (Inr ''new''), EvRun 1 10800500] ?j = Some s' \<and>
        run [EvGet 2 10800005 ''k'' CtArtistData 8, EvSettle 0 (Inr ''new''), EvRun 1 10800500]
            (withoutEntry ''k'' ?j) = Some s' \<and>
        returned s' = [(2, Inr \<lparr>result_data = ''new'', isStale = False, source = Fresh\<rparr>)] \<and>
        cache s' ''k'' = Some \<lparr>data = ''new'', createdAt = 10800005, isRevalidating = False,
                               contentType = CtArtistData\<rparr>"
    by blast
  from first second show ?thesis by blast
qed

subsection \<open>A failing fetch\<close>

lemma background_failure:
  "cache (runContinuation (BackgroundCont key ct) t (Inl err) s) key =
     map_option (\<lambda>entry. entry\<lparr>isRevalidating := False\<rparr>) (cache s key) \<and>
   (\<forall>key'. key' \<noteq> key \<longrightarrow>
      cache (runContinuation (BackgroundCont key ct) t (Inl err) s) key' = cache s key') \<and>
   returned (runContinuation (BackgroundCont key ct) t (Inl err) s) = returned s \<and>
   errorLog (runContinuation (BackgroundCont key ct) t (Inl err) s) = errorLog s @ [(key, err)]"
  by (cases "cache s key") simp_all

lemma awaiting_failure:
  assumes aw: "awaiting s i p c" and out: "outcome s p = Some (Inl err)"
    and r: "runTask i t s = Some s'"
  shows "cache s' = cache s \<and>
         (awaiting s' i p c \<and> returned s' = returned s \<or>
          returned s' = returned s @ [(c, Inl err)])"
  using r
proof (cases rule: runTask_cases)
  case (owner key q k out')
  with awaiting_runTask[OF aw r] out show ?thesis by auto
next
  case (resume q k out')
  from aw resume(2) have w: "waitsFor (FetchDone q k) = Some (p, c)"
    by (cases k) (auto simp add: awaiting_def)
  then obtain now key ct where k: "k = GetCont c now key ct" and q: "q = p"
    by (cases k) simp_all
  from resume(3) q out have o: "out' = Inl err" by simp
  show ?thesis unfolding resume(4) k o by simp
qed

text \<open>
  Claim C6.
  \<^item> When \<open>key\<close> has no entry or an expired one and the fetch fails with \<open>err\<close>, the \<^verbatim>\<open>get\<close>
    that fetches, and a \<^verbatim>\<open>get\<close> that joined the fetch, throw \<open>err\<close>, and the table is as
    before the call. Every suspended \<^verbatim>\<open>get\<close> that waits for a promise rejected with \<open>err\<close>
    receives \<open>err\<close> when it is resumed, and resuming it leaves the table unchanged.
  \<^item> When a stale entry is revalidated in the background and the fetch fails, no caller
    receives the error (it is appended to the log), the entry keeps its data and its
    \<^verbatim>\<open>createdAt\<close> and is no longer marked as revalidating, no promise is stored for the key
    any more, and the next \<^verbatim>\<open>get\<close> in the stale window returns the same data, stale. The \<^verbatim>\<open>.catch\<close> handler in general clears the mark of
    the entry of its key, touches no other entry and returns nothing to any caller.
\<close>

theorem fetch_failure_policy:
  "((cache s key = None \<or>
     (\<exists>old. cache s key = Some old \<and> now - createdAt old > staleTTL (CONFIG ct))) \<and>
    revalidationPromises s key = None \<longrightarrow>
      (\<exists>s'. run [EvGet caller now key ct r, EvSettle (length (upstream s)) (Inl err),
                  EvRun (length (tasks s)) t1, EvRun (length (tasks s)) t2] s = Some s' \<and>
            returned s' = returned s @ [(caller, Inl err)] \<and> cache s' = cache s)) \<and>
   ((cache s key = None \<or>
     (\<exists>old. cache s key = Some old \<and> now - createdAt old > staleTTL (CONFIG ct))) \<and>
    revalidationPromises s key = Some p \<and> p < length (upstream s) \<and>
    fetch_outcome (upstream s ! p) = None \<longrightarrow>
      (\<exists>s'. run [EvGet caller now key ct r, EvSettle p (Inl err),
                  EvRun (length (tasks s)) t1] s = Some s' \<and>
            returned s' = returned s @ [(caller, Inl err)] \<and> cache s' = cache s)) \<and>
   (awaiting s1 i p c \<and> outcome s1 p = Some (Inl err) \<and> runTask i t s1 = Some s2 \<longrightarrow>
      cache s2 = cache s1 \<and>
      (awaiting s2 i p c \<and> returned s2 = returned s1 \<or>
       returned s2 = returned s1 @ [(c, Inl err)])) \<and>
   (cache s key = Some entry \<and> freshTTL (CONFIG ct) < now - createdAt entry \<and>
    now - createdAt entry \<le> staleTTL (CONFIG ct) \<and> \<not> isRevalidating entry \<and>
    revalidationPromises s key = None \<longrightarrow>
      (\<exists>s'. run [EvGet caller now key ct r, EvSettle (length (upstream s)) (Inl err),
                  EvRun (length (tasks s)) t1, EvRun (length (tasks s)) t2] s = Some s' \<and>
            returned s' = returned s @
              [(caller, Inr \<lparr>result_data = data entry, isStale = True, source = FromCache\<rparr>)] \<and>
            errorLog s' = errorLog s @ [(key, err)] \<and>
            cache s' = (cache s)(key \<mapsto> entry\<lparr>isRevalidating := False\<rparr>) \<and>
            revalidationPromises s' key = None \<and>
            (freshTTL (CONFIG ct) < now2 - createdAt entry \<and>
             now2 - createdAt entry \<le> staleTTL (CONFIG ct) \<longrightarrow>
               returned (get c2 now2 key ct r2 s') = returned s' @
                 [(c2, Inr \<lparr>result_data = data entry, isStale = True, source = FromCache\<rparr>)]))) \<and>
   cache (runContinuation (BackgroundCont key ct) t (Inl err) s1) key =
     map_option (\<lambda>entry. entry\<lparr>isRevalidating := False\<rparr>) (cache s1 key) \<and>
   (\<forall>key'. key' \<noteq> key \<longrightarrow>
      cache (runContinuation (BackgroundCont key ct) t (Inl err) s1) key' = cache s1 key') \<and>
   returned (runContinuation (BackgroundCont key ct) t (Inl err) s1) = returned s1 \<and>
   errorLog (runContinuation (BackgroundCont key ct) t (Inl err) s1) = errorLog s1 @ [(key, err)]"
proof -
  have A: "\<exists>s'. run [EvGet caller now key ct r, EvSettle (length (upstream s)) (Inl err),
                  EvRun (length (tasks s)) t1, EvRun (length (tasks s)) t2] s = Some s' \<and>
            returned s' = returned s @ [(caller, Inl err)] \<and> cache s' = cache s"
    if a: "(cache s key = None \<or>
     (\<exists>old. cache s key = Some old \<and> now - createdAt old > staleTTL (CONFIG ct))) \<and>
    revalidationPromises s key = None"
  proof -
    from a have miss: "get caller now key ct r s = executeFetch key r (GetCont caller now key ct) s"
      by (auto simp: get_absent get_expired)
    from a have none: "revalidationPromises s key = None" by simp
    show ?thesis unfolding miss_owner_run[OF miss none] by simp
  qed
  have B: "\<exists>s'. run [EvGet caller now key ct r, EvSettle p (Inl err),
                  EvRun (length (tasks s)) t1] s = Some s' \<and>
            returned s' = returned s @ [(caller, Inl err)] \<and> cache s' = cache s"
    if a: "(cache s key = None \<or>
     (\<exists>old. cache s key = Some old \<and> now - createdAt old > staleTTL (CONFIG ct))) \<and>
    revalidationPromises s key = Some p \<and> p < length (upstream s) \<and>
    fetch_outcome (upstream s ! p) = None"
  proof -
    from a have miss: "get caller now key ct r s = executeFetch key r (GetCont caller now key ct) s"
      by (auto simp: get_absent get_expired)
    from a have some: "revalidationPromises s key = Some p" and p: "p < length (upstream s)"
      "fetch_outcome (upstream s ! p) = None" by simp_all
    show ?thesis unfolding miss_shared_run[OF miss some p] by simp
  qed
  have C: "cache s2 = cache s1 \<and>
      (awaiting s2 i p c \<and> returned s2 = returned s1 \<or>
       returned s2 = returned s1 @ [(c, Inl err)])"
    if "awaiting s1 i p c \<and> outcome s1 p = Some (Inl err) \<and> runTask i t s1 = Some s2"
    using that awaiting_failure[of s1 i p c err t s2] by blast
  have D: "\<exists>s'. run [EvGet caller now key ct r, EvSettle (length (upstream s)) (Inl err),
                  EvRun (length (tasks s)) t1, EvRun (length (tasks s)) t2] s = Some s' \<and>
            returned s' = returned s @
              [(caller, Inr \<lparr>result_data = data entry, isStale = True, source = FromCache\<rparr>)] \<and>
            errorLog s' = errorLog s @ [(key, err)] \<and>
            cache s' = (cache s)(key \<mapsto> entry\<lparr>isRevalidating := False\<rparr>) \<and>
            revalidationPromises s' key = None \<and>
            (freshTTL (CONFIG ct) < now2 - createdAt entry \<and>
             now2 - createdAt entry \<le> staleTTL (CONFIG ct) \<longrightarrow>
               returned (get c2 now2 key ct r2 s') = returned s' @
                 [(c2, Inr \<lparr>result_data = data entry, isStale = True, source = FromCache\<rparr>)])"
    if a: "cache s key = Some entry \<and> freshTTL (CONFIG ct) < now - createdAt entry \<and>
    now - createdAt entry \<le> staleTTL (CONFIG ct) \<and> \<not> isRevalidating entry \<and>
    revalidationPromises s key = None"
  proof -
    from a have e: "cache s key = Some entry" and st: "freshTTL (CONFIG ct) < now - createdAt entry"
      "now - createdAt entry \<le> staleTTL (CONFIG ct)" and nr: "\<not> isRevalidating entry"
      and none: "revalidationPromises s key = None" by simp_all
    let ?s0 = "s\<lparr>cache := (cache s)(key \<mapsto> entry\<lparr>isRevalidating := True\<rparr>)\<rparr>"
    let ?res = "(caller, Inr \<lparr>result_data = data entry, isStale = True, source = FromCache\<rparr>)"
    have g: "get caller now key ct r s =
        (executeFetch key r (BackgroundCont key ct) ?s0)\<lparr>returned := returned s @ [?res]\<rparr>"
      using get_stale[OF e st, of caller r] nr by simp
    have none0: "revalidationPromises ?s0 key = None" using none by simp
    have m: "(revalidationPromises s)(key := None) = revalidationPromises s"
      using none by (simp add: fun_upd_idem)
    let ?s' = "runContinuation (BackgroundCont key ct) t2 (Inl err)
        (s\<lparr>cache := (cache s)(key \<mapsto> entry\<lparr>isRevalidating := True\<rparr>),
           upstream := upstream s @
               [\<lparr>fetch_key = key, fetch_revalidator = r, fetch_outcome = Some (Inl err)\<rparr>],
           tasks := tasks s @ [Completed],
           returned := returned s @ [?res]\<rparr>)"
    have run: "run [EvGet caller now key ct r, EvSettle (length (upstream s)) (Inl err),
                  EvRun (length (tasks s)) t1, EvRun (length (tasks s)) t2] s = Some ?s'"
      by (simp add: g executeFetch_None[OF none0] settle_def runTask_def outcome_def m)
    have c': "cache ?s' = (cache s)(key \<mapsto> entry\<lparr>isRevalidating := False\<rparr>)"
      "revalidationPromises ?s' key = None"
      using none by simp_all
    have next_get: "returned (get c2 now2 key ct r2 ?s') = returned ?s' @
                 [(c2, Inr \<lparr>result_data = data entry, isStale = True, source = FromCache\<rparr>)]"
      if st2: "freshTTL (CONFIG ct) < now2 - createdAt entry \<and>
             now2 - createdAt entry \<le> staleTTL (CONFIG ct)"
    proof -
      have e': "cache ?s' key = Some (entry\<lparr>isRevalidating := False\<rparr>)" by simp
      from get_stale[OF e', of ct now2 c2 r2] st2 show ?thesis
        by (simp add: executeFetch_frame)
    qed
    from run c' next_get show ?thesis by (intro exI[of _ ?s']) simp
  qed
  from A B C D background_failure[of key ct t err s1] show ?thesis by blast
qed

text \<open>
  The theorem on the empty cache (the miss throws \<open>"timeout"\<close>, and so does a second call
  that joined its fetch; no entry is written) and at an entry written at time 0 and read
  after 50 minutes (the background failure is logged, and the read one minute later returns
  \<open>"X"\<close> stale again).
\<close>

theorem fetch_failure_policy_witness:
  "(\<exists>s'. run [EvGet 1 0 ''k'' CtArtistData 7, EvSettle 0 (Inl ''timeout''), EvRun 0 5, EvRun 0 6]
            (initial :: (string, string) swr) = Some s' \<and>
         returned s' = [(1, Inl ''timeout'')] \<and> cache s' ''k'' = None) \<and>
   (\<exists>s'. run [EvGet 2 3 ''k'' CtArtistData 8, EvSettle 0 (Inl ''timeout''), EvRun 1 5]
            (get 1 0 ''k'' CtArtistData 7 (initial :: (string, string) swr)) = Some s' \<and>
         returned s' = [(2, Inl ''timeout'')] \<and> cache s' ''k'' = None) \<and>
   (\<exists>s1 s2. run [EvGet 1 0 ''k'' CtArtistData 7, EvSettle 0 (Inl ''timeout'')]
            (initial :: (string, string) swr) = Some s1 \<and>
         awaiting s1 0 0 1 \<and> runTask 0 5 s1 = Some s2 \<and> cache s2 = cache s1 \<and>
         awaiting s2 0 0 1 \<and> returned s2 = returned s1) \<and>
   (\<exists>s'. run [EvGet 1 3000000 ''k'' CtArtistData 7, EvSettle 0 (Inl ''timeout''),
              EvRun 0 3000500, EvRun 0 3000501]
            (set_cache 0 ''k'' ''X'' CtArtistData (initial :: (string, string) swr)) = Some s' \<and>
         returned s' = [(1, Inr \<lparr>result_data = ''X'', isStale = True, source = FromCache\<rparr>)] \<and>
         errorLog s' = [(''k'', ''timeout'')] \<and>
         returned (get 2 3060000 ''k'' CtArtistData 8 s') =
           [(1, Inr \<lparr>result_data = ''X'', isStale = True, source = FromCache\<rparr>),
            (2, Inr \<lparr>result_data = ''X'', isStale = True, source = FromCache\<rparr>)])"
proof -
  let ?ini = "initial :: (string, string) swr"
  let ?st = "set_cache 0 ''k'' ''X'' CtArtistData ?ini"
  let ?e = "\<lparr>data = ''X'', createdAt = 0, isRevalidating = False, contentType = CtArtistData\<rparr>"
  have i0: "length (upstream ?ini) = 0" "length (tasks ?ini) = 0" "returned ?ini = []"
    and a0: "cache ?ini ''k'' = None" "revalidationPromises ?ini ''k'' = None"
    by (simp_all add: initial_def)
  note inst0 = fetch_failure_policy[where s="?ini" and key="''k''" and now=0 and ct=CtArtistData
      and caller=1 and r=7 and err="''timeout''" and ?t1.0=5 and ?t2.0=6,
      unfolded i0 append_Nil]
  from inst0 a0 obtain s' where 1:
    "run [EvGet 1 0 ''k'' CtArtistData 7, EvSettle 0 (Inl ''timeout''), EvRun 0 5, EvRun 0 6] ?ini
       = Some s'" "returned s' = [(1, Inl ''timeout'')]" "cache s' = cache ?ini"
    by blast
  from 1(3) a0 have "cache s' ''k'' = None" by simp
  with 1 have first: "\<exists>s'. run [EvGet 1 0 ''k'' CtArtistData 7, EvSettle 0 (Inl ''timeout''),
      EvRun 0 5, EvRun 0 6] ?ini = Some s' \<and> returned s' = [(1, Inl ''timeout'')] \<and>
      cache s' ''k'' = None" by blast
  let ?j = "get 1 0 ''k'' CtArtistData 7 ?ini"
  have j: "cache ?j ''k'' = None" "revalidationPromises ?j ''k'' = Some 0 \<and>
      0 < length (upstream ?j) \<and> fetch_outcome (upstream ?j ! 0) = None"
    and lj: "length (tasks ?j) = 1" "returned ?j = []"
    by (simp_all add: get_def executeFetch_def initial_def)
  note instj = fetch_failure_policy[where s="?j" and key="''k''" and now=3 and ct=CtArtistData
      and caller=2 and r=8 and err="''timeout''" and ?t1.0=5 and p=0,
      unfolded lj append_Nil]
  from instj j obtain sj where 2:
    "run [EvGet 2 3 ''k'' CtArtistData 8, EvSettle 0 (Inl ''timeout''), EvRun 1 5] ?j = Some sj"
    "returned sj = [(2, Inl ''timeout'')]" "cache sj = cache ?j"
    by blast
  from 2(3) j(1) have "cache sj ''k'' = None" by simp
  with 2 have joined: "\<exists>s'. run [EvGet 2 3 ''k'' CtArtistData 8, EvSettle 0 (Inl ''timeout''),
      EvRun 1 5] ?j = Some s' \<and> returned s' = [(2, Inl ''timeout'')] \<and> cache s' ''k'' = None"
    by blast
  obtain s1 where s1: "run [EvGet 1 0 ''k'' CtArtistData 7, EvSettle 0 (Inl ''timeout'')] ?ini
      = Some s1" "awaiting s1 0 0 1" "outcome s1 0 = Some (Inl ''timeout'')"
    by (simp add: get_def executeFetch_def settle_def initial_def awaiting_def outcome_def)
  obtain s2 where s2: "runTask 0 5 s1 = Some s2" "\<not> returned s2 = returned s1 @ [(1, Inl ''timeout'')]"
    using s1(1)
    by (auto simp add: get_def executeFetch_def settle_def initial_def runTask_def outcome_def)
  from fetch_failure_policy[where ?s1.0=s1 and i=0 and p=0 and c=1 and err="''timeout''"
      and t=5 and ?s2.0=s2] s1(2,3) s2
  have "cache s2 = cache s1 \<and> awaiting s2 0 0 1 \<and> returned s2 = returned s1" by blast
  with s1 s2 have resumed: "\<exists>s1 s2. run [EvGet 1 0 ''k'' CtArtistData 7,
         EvSettle 0 (Inl ''timeout'')] ?ini = Some s1 \<and>
         awaiting s1 0 0 1 \<and> runTask 0 5 s1 = Some s2 \<and> cache s2 = cache s1 \<and>
         awaiting s2 0 0 1 \<and> returned s2 = returned s1" by blast
  have i1: "length (upstream ?st) = 0" "length (tasks ?st) = 0" "returned ?st = []" "errorLog ?st = []"
    and a1: "cache ?st ''k'' = Some ?e" "revalidationPromises ?st ''k'' = None"
    by (simp_all add: initial_def set_cache_def)
  have st: "freshTTL (CONFIG CtArtistData) < 3000000 - createdAt ?e"
    "3000000 - createdAt ?e \<le> staleTTL (CONFIG CtArtistData)" "\<not> isRevalidating ?e"
    "freshTTL (CONFIG CtArtistData) < 3060000 - createdAt ?e \<and>
     3060000 - createdAt ?e \<le> staleTTL (CONFIG CtArtistData)"
    by simp_all
  note inst1 = fetch_failure_policy[where s="?st" and key="''k''" and now=3000000
      and ct=CtArtistData and entry="?e" and caller=1 and r=7 and err="''timeout''"
      and ?t1.0=3000500 and ?t2.0=3000501 and ?now2.0=3060000 and ?c2.0=2 and ?r2.0=8,
      unfolded i1 append_Nil]
  from inst1 a1 st obtain s'' where 3:
    "run [EvGet 1 3000000 ''k'' CtArtistData 7, EvSettle 0 (Inl ''timeout''),
          EvRun 0 3000500, EvRun 0 3000501] ?st = Some s''"
    "returned s'' = [(1, Inr \<lparr>result_data = data ?e, isStale = True, source = FromCache\<rparr>)]"
    "errorLog s'' = [(''k'', ''timeout'')]"
    "returned (get 2 3060000 ''k'' CtArtistData 8 s'') = returned s'' @
       [(2, Inr \<lparr>result_data = data ?e, isStale = True, source = FromCache\<rparr>)]"
    by blast
  then have background: "\<exists>s'. run [EvGet 1 3000000 ''k'' CtArtistData 7,
         EvSettle 0 (Inl ''timeout''), EvRun 0 3000500, EvRun 0 3000501] ?st = Some s' \<and>
         returned s' = [(1, Inr \<lparr>result_data = ''X'', isStale = True, source = FromCache\<rparr>)] \<and>
         errorLog s' = [(''k'', ''timeout'')] \<and>
         returned (get 2 3060000 ''k'' CtArtistData 8 s') =
           [(1, Inr \<lparr>result_data = ''X'', isStale = True, source = FromCache\<rparr>),
            (2, Inr \<lparr>result_data = ''X'', isStale = True, source = FromCache\<rparr>)]"
    by (intro exI[of _ s'']) simp
  from first joined resumed background show ?thesis by blast
qed

end
